theory Spec2Isabelle
  imports Main
begin

section \<open>Text\<close>

text \<open>
  A Python \<open>str\<close> is a sequence of Unicode code points. A code point is a natural
  number; the ASCII part of a literal is written with \<open>ascii\<close>, every other code point
  by its number (the em dash U+2014 is 8212).
\<close>

type_synonym cp = nat
type_synonym str = "cp list"

definition ascii :: "string \<Rightarrow> str" where
  "ascii s = map of_char s"

text \<open>
  The scripts reach the Unicode character database through three library calls:
  \<open>unicodedata.normalize("NFKC", s)\<close>, \<open>s.lower()\<close>, and the white-space class that
  \<open>s.strip()\<close> and the regular expression \<open>\s\<close> share. The database is no part of
  the repository, so the three are parameters of the model.
\<close>

record ucd =
  normalize_nfkc :: "str \<Rightarrow> str"
  str_lower :: "str \<Rightarrow> str"
  isspace :: "cp \<Rightarrow> bool"

text \<open>The white-space code points below 128 (Python: TAB to CR, FS to US, and SPACE).\<close>

definition ascii_space :: "cp \<Rightarrow> bool" where
  "ascii_space c = ((9 \<le> c \<and> c \<le> 13) \<or> (28 \<le> c \<and> c \<le> 32))"

text \<open>
  \<open>Py_UNICODE_ISSPACE\<close>: below 128 the class is fixed; above, the database decides.
\<close>

definition is_space :: "ucd \<Rightarrow> cp \<Rightarrow> bool" where
  "is_space U c = (if c < 128 then ascii_space c else isspace U c)"

definition ascii_lower :: "cp \<Rightarrow> cp" where
  "ascii_lower c = (if 65 \<le> c \<and> c \<le> 90 then c + 32 else c)"

text \<open>
  The code points the scripts themselves name: ASCII, the four dashes U+2012 to U+2015
  and the curly quotes U+2019, U+201C, U+201D. None of them has a decomposition or
  a case mapping outside ASCII, and none combines with another.
\<close>

definition plain :: "cp \<Rightarrow> bool" where
  "plain c = (c < 128 \<or> (8210 \<le> c \<and> c \<le> 8213) \<or> c = 8217 \<or> c = 8220 \<or> c = 8221)"

text \<open>
  What the proofs use of the real database: on text of plain code points NFKC changes
  nothing, lower-casing is the ASCII one and white space is the ASCII one; lower-casing
  twice is lower-casing once; lower-casing keeps a leading full stop in place and never
  produces a full stop or a slash of its own.
\<close>

definition ucd_sound :: "ucd \<Rightarrow> bool" where
  "ucd_sound U =
     ((\<forall>s. list_all plain s \<longrightarrow> normalize_nfkc U s = s) \<and>
      (\<forall>s. list_all plain s \<longrightarrow> str_lower U s = map ascii_lower s) \<and>
      (\<forall>c. plain c \<longrightarrow> is_space U c = ascii_space c) \<and>
      (\<forall>s. str_lower U (str_lower U s) = str_lower U s) \<and>
      (\<forall>s. str_lower U (46 # s) = 46 # str_lower U s) \<and>
      (\<forall>s. 46 \<in> set (str_lower U s) \<longrightarrow> 46 \<in> set s) \<and>
      (\<forall>s. 47 \<in> set (str_lower U s) \<longrightarrow> 47 \<in> set s))"

text \<open>The database cut down to ASCII: identity on every other code point.\<close>

definition ascii_ucd :: ucd where
  "ascii_ucd = \<lparr> normalize_nfkc = (\<lambda>s. s), str_lower = map ascii_lower, isspace = ascii_space \<rparr>"

subsection \<open>String methods\<close>

definition endswith :: "str \<Rightarrow> str \<Rightarrow> bool" where
  "endswith s suf = (length suf \<le> length s \<and> drop (length s - length suf) s = suf)"

definition startswith :: "str \<Rightarrow> str \<Rightarrow> bool" where
  "startswith s pre = (take (length pre) s = pre)"

text \<open>\<open>s.strip(chars)\<close>: leading and trailing code points of the class are dropped.\<close>

definition strip_class :: "(cp \<Rightarrow> bool) \<Rightarrow> str \<Rightarrow> str" where
  "strip_class p s = rev (dropWhile p (rev (dropWhile p s)))"

text \<open>\<open>s.rfind(c)\<close> for a single code point: the last index, or -1.\<close>

definition rfind :: "cp \<Rightarrow> str \<Rightarrow> int" where
  "rfind c s = int (length (dropWhile (\<lambda>x. x \<noteq> c) (rev s))) - 1"

text \<open>
  \<open>s.replace(k, v)\<close>, left to right without overlap. With an empty \<open>k\<close> Python puts
  \<open>v\<close> before every code point and at the end.
\<close>

function str_replace :: "str \<Rightarrow> str \<Rightarrow> str \<Rightarrow> str" where
  "str_replace k v [] = (if k = [] then v else [])"
| "str_replace k v (c # cs) =
     (if k = [] then v @ c # str_replace k v cs
      else if take (length k) (c # cs) = k then v @ str_replace k v (drop (length k) (c # cs))
      else c # str_replace k v cs)"
  by pat_completeness auto
termination
  by (relation "measure (\<lambda>(k, v, s). length s)") auto

text \<open>\<open>str(i)\<close> for a non-negative integer.\<close>

fun str_of_nat :: "nat \<Rightarrow> str" where
  "str_of_nat n = (if n < 10 then [48 + n] else str_of_nat (n div 10) @ [48 + n mod 10])"

subsection \<open>\<open>os.path.splitext\<close> (posixpath)\<close>

text \<open>
  \<^verbatim>\<open>
  sepIndex = p.rfind('/'); dotIndex = p.rfind('.')
  if dotIndex > sepIndex:
      filenameIndex = sepIndex + 1
      while filenameIndex < dotIndex:
          if p[filenameIndex:filenameIndex+1] != '.':
              return p[:dotIndex], p[dotIndex:]
          filenameIndex += 1
  return p, p[:0]
  \<close>
  The loop looks for a code point other than the full stop between the last slash and
  the last full stop.
\<close>

definition splitext :: "str \<Rightarrow> str \<times> str" where
  "splitext p =
     (let sepIndex = rfind 47 p; dotIndex = rfind 46 p in
      if dotIndex > sepIndex \<and>
         list_ex (\<lambda>c. \<not> c = 46) (drop (nat (sepIndex + 1)) (take (nat dotIndex) p))
      then (take (nat dotIndex) p, drop (nat dotIndex) p)
      else (p, []))"

section \<open>The slugifier\<close>

text \<open>
  \<open>slugify_filename\<close> of fix_dpp_filenames.py and of dpp_cleanup.py (the two bodies are
  the same statements in the same order).
\<close>

definition replacements :: "(str \<times> str) list" where
  "replacements =
     [(ascii ''&'', ascii '' and ''),
      ([8212], ascii ''-''), ([8211], ascii ''-''), ([8210], ascii ''-''), ([8213], ascii ''-''),
      (ascii ''_'', ascii ''-''), (ascii ''/'', ascii ''-''), (ascii '':'', ascii ''-''),
      (ascii '';'', ascii ''-''), (ascii '','', ascii ''-''), (ascii ''+'', ascii ''-''),
      (ascii ''#'', ascii ''-''), (ascii ''@'', ascii ''-''),
      (ascii ''!'', []), (ascii ''?'', []), ([39], []), ([34], []),
      ([8217], []), ([8220], []), ([8221], []),
      (ascii ''('', ascii ''-''), (ascii '')'', ascii ''-''), (ascii ''['', ascii ''-''),
      (ascii '']'', ascii ''-''), (ascii ''{'', ascii ''-''), (ascii ''}'', ascii ''-''),
      (ascii ''|'', ascii ''-''), ([92], ascii ''-'')]"

definition apply_replacements :: "str \<Rightarrow> str" where
  "apply_replacements s = fold (\<lambda>(k, v) t. str_replace k v t) replacements s"

text \<open>\<open>re.sub(r"\s+", "-", s)\<close>: every maximal run of white space becomes one hyphen.\<close>

function sub_spaces :: "ucd \<Rightarrow> str \<Rightarrow> str" where
  "sub_spaces U [] = []"
| "sub_spaces U (c # cs) =
     (if is_space U c then 45 # sub_spaces U (dropWhile (is_space U) cs)
      else c # sub_spaces U cs)"
  by pat_completeness auto
termination
  by (relation "measure (\<lambda>(U, s). length s)") (auto simp: length_dropWhile_le less_Suc_eq_le)

text \<open>The class \<open>[a-z0-9\-.]\<close>; \<open>re.sub(r"[^a-z0-9\-.]", "", s)\<close> keeps exactly its members.\<close>

definition slug_char :: "cp \<Rightarrow> bool" where
  "slug_char c = ((97 \<le> c \<and> c \<le> 122) \<or> (48 \<le> c \<and> c \<le> 57) \<or> c = 45 \<or> c = 46)"

text \<open>\<open>re.sub(r"-{2,}", "-", s)\<close>: a run of two or more hyphens becomes one.\<close>

function collapse_hyphens :: "str \<Rightarrow> str" where
  "collapse_hyphens [] = []"
| "collapse_hyphens (c # cs) =
     (if c = 45 \<and> take 1 cs = [45] then 45 # collapse_hyphens (dropWhile (\<lambda>x. x = 45) cs)
      else c # collapse_hyphens cs)"
  by pat_completeness auto
termination
  by (relation "measure length") (auto simp: length_dropWhile_le less_Suc_eq_le)

definition hyphen_or_dot :: "cp \<Rightarrow> bool" where
  "hyphen_or_dot c = (c = 45 \<or> c = 46)"

definition norm_ext :: "ucd \<Rightarrow> str \<Rightarrow> str" where
  "norm_ext U ext =
     (if str_lower U ext = ascii ''.html'' \<or> str_lower U ext = ascii ''.htm''
      then ascii ''.html'' else str_lower U ext)"

definition slug_base :: "ucd \<Rightarrow> str \<Rightarrow> str" where
  "slug_base U base =
     (let s = normalize_nfkc U base;
          s = str_lower U (strip_class (is_space U) s);
          s = apply_replacements s;
          s = sub_spaces U s;
          s = filter slug_char s;
          s = collapse_hyphens s;
          s = strip_class hyphen_or_dot s
      in if s = [] then ascii ''file'' else s)"

definition slugify_filename :: "ucd \<Rightarrow> str \<Rightarrow> str" where
  "slugify_filename U name =
     (case splitext name of (base, ext) \<Rightarrow> slug_base U base @ norm_ext U ext)"

section \<open>The mapping block\<close>

subsection \<open>String literals\<close>

text \<open>
  The pattern \<^verbatim>\<open>(?P<q>['\"])(?P<val>[^'\"]+?)(?P=q)\<close>: a quote, one or more code points
  none of which is a quote of either kind (as few as possible), and the opening quote again.
  \<open>lazy_val q acc s\<close> runs the lazy repetition: it takes one more code point, then tries
  the back reference; the pair it returns is the value and the text after the closing quote.
\<close>

definition is_quote :: "cp \<Rightarrow> bool" where
  "is_quote c = (c = 39 \<or> c = 34)"

fun lazy_val :: "cp \<Rightarrow> str \<Rightarrow> str \<Rightarrow> (str \<times> str) option" where
  "lazy_val q acc [] = None"
| "lazy_val q acc (c # cs) =
     (if is_quote c then None
      else if take 1 cs = [q] then Some (acc @ [c], drop 1 cs)
      else lazy_val q (acc @ [c]) cs)"

text \<open>A match that starts at the head of the text: the quote, the value, the rest.\<close>

fun match_string_val :: "str \<Rightarrow> (cp \<times> str \<times> str) option" where
  "match_string_val [] = None"
| "match_string_val (c # cs) =
     (if is_quote c
      then (case lazy_val c [] cs of None \<Rightarrow> None | Some (v, r) \<Rightarrow> Some (c, v, r))
      else None)"

lemma lazy_val_shorter: "lazy_val q acc s = Some (v, r) \<Longrightarrow> length r < length s"
  by (induction s arbitrary: acc) (auto split: if_splits intro: less_SucI)

lemma match_string_val_shorter: "match_string_val s = Some (q, v, r) \<Longrightarrow> length r < length s"
  by (cases s) (auto split: if_splits option.splits dest: lazy_val_shorter)

text \<open>
  \<open>string_val.finditer(body)\<close>, the values of the matches: the scan tries each position
  from the left and goes on after a match.
\<close>

function string_vals :: "str \<Rightarrow> str list" where
  "string_vals [] = []"
| "string_vals (c # cs) =
     (case match_string_val (c # cs) of
        Some (q, v, r) \<Rightarrow> v # string_vals r
      | None \<Rightarrow> string_vals cs)"
  by pat_completeness auto
termination
  by (relation "measure length")
    (auto dest: match_string_val_shorter simp del: match_string_val.simps)

text \<open>\<open>string_val.sub(repl, block_text)\<close>: \<open>f q val\<close> is what \<open>repl\<close> returns for a match.\<close>

function sub_string_val :: "(cp \<Rightarrow> str \<Rightarrow> str) \<Rightarrow> str \<Rightarrow> str" where
  "sub_string_val f [] = []"
| "sub_string_val f (c # cs) =
     (case match_string_val (c # cs) of
        Some (q, v, r) \<Rightarrow> f q v @ sub_string_val f r
      | None \<Rightarrow> c # sub_string_val f cs)"
  by pat_completeness auto
termination
  by (relation "measure (\<lambda>(f, s). length s)")
    (auto dest: match_string_val_shorter simp del: match_string_val.simps)

subsection \<open>Dictionaries\<close>

text \<open>
  A Python \<open>dict\<close> keeps its keys in the order of their first insertion; an assignment
  to a key it has replaces the value in place.
\<close>

type_synonym dict = "(str \<times> str) list"

fun dict_set :: "dict \<Rightarrow> str \<Rightarrow> str \<Rightarrow> dict" where
  "dict_set [] k v = [(k, v)]"
| "dict_set ((k', v') # d) k v = (if k' = k then (k, v) # d else (k', v') # dict_set d k v)"

definition dict_get :: "dict \<Rightarrow> str \<Rightarrow> str \<Rightarrow> str" where
  "dict_get d k dflt = (case map_of d k of None \<Rightarrow> dflt | Some v \<Rightarrow> v)"

subsection \<open>\<open>replace_urls_in_block\<close>\<close>

text \<open>
  \<^verbatim>\<open>
  def repl(match):
      quote = match.group("q"); val = match.group("val")
      new_val = rename_map.get(val, val)
      return f"{quote}{new_val}{quote}"
  return string_val.sub(repl, block_text)
  \<close>
\<close>

definition replace_urls_in_block :: "str \<Rightarrow> dict \<Rightarrow> str" where
  "replace_urls_in_block block_text rename_map =
     sub_string_val (\<lambda>quote val. quote # dict_get rename_map val val @ [quote]) block_text"

subsection \<open>\<open>find_dpp_urls_block\<close>\<close>

text \<open>
  The pattern \<^verbatim>\<open>const\s+dppUrls\s*=\s*\{(?P<body>.*?)\}\s*;\<close> with DOTALL, searched from
  the left. The code point after every white-space run of the pattern (d, =, left brace,
  semicolon) is no white space, so a greedy run never gives anything back.
  \<open>match_open\<close> matches up to the opening brace and returns the text after it;
  \<open>match_close\<close> says that the closing brace, white space and the semicolon stand here;
  \<open>find_close\<close> is the lazy body: the number of code points before the first such place.
\<close>

definition match_open :: "ucd \<Rightarrow> str \<Rightarrow> str option" where
  "match_open U t =
     (if startswith t (ascii ''const'') \<and> list_ex (is_space U) (take 1 (drop 5 t)) then
        (let r = dropWhile (is_space U) (drop 5 t) in
         if startswith r (ascii ''dppUrls'') then
           (let r = dropWhile (is_space U) (drop 7 r) in
            if startswith r (ascii ''='') then
              (let r = dropWhile (is_space U) (drop 1 r) in
               if startswith r (ascii ''{'') then Some (drop 1 r) else None)
            else None)
         else None)
      else None)"

definition match_close :: "ucd \<Rightarrow> str \<Rightarrow> bool" where
  "match_close U t = (take 1 t = [125] \<and> take 1 (dropWhile (is_space U) (drop 1 t)) = [59])"

fun find_close :: "ucd \<Rightarrow> str \<Rightarrow> nat option" where
  "find_close U [] = None"
| "find_close U (c # cs) =
     (if match_close U (c # cs) then Some 0 else map_option Suc (find_close U cs))"

text \<open>
  \<open>search_block U pos t\<close>: \<open>t\<close> is the document from index \<open>pos\<close> on. The result is
  \<open>(m.start("body"), m.end("body"), m.group("body"))\<close>.
\<close>

fun search_block :: "ucd \<Rightarrow> nat \<Rightarrow> str \<Rightarrow> (nat \<times> nat \<times> str) option" where
  "search_block U pos [] = None"
| "search_block U pos (c # cs) =
     (case match_open U (c # cs) of
        None \<Rightarrow> search_block U (Suc pos) cs
      | Some r \<Rightarrow>
          (case find_close U r of
             None \<Rightarrow> search_block U (Suc pos) cs
           | Some n \<Rightarrow>
               (let start = pos + (length (c # cs) - length r)
                in Some (start, start + n, take n r))))"

definition find_dpp_urls_block :: "ucd \<Rightarrow> str \<Rightarrow> (nat \<times> nat \<times> str) option" where
  "find_dpp_urls_block U html_text = search_block U 0 html_text"

section \<open>The working directory\<close>

text \<open>
  The file system as the scripts see it from the working directory: an association list
  from path text (relative to the working directory, components joined by a slash) to
  nodes, in the order \<open>os.listdir\<close> yields the entries. A file holds its bytes. Paths are
  compared as text: no symbolic links, no case folding, no \<open>.\<close> or \<open>..\<close> components.
\<close>

type_synonym bytes = "nat list"

datatype node = File bytes | Dir

type_synonym fs = "(str \<times> node) list"

datatype oserror = FileNotFoundError | IsADirectoryError | NotADirectoryError
  | FileExistsError | ShutilError | UnicodeDecodeError | UnicodeEncodeError

definition path_exists :: "fs \<Rightarrow> str \<Rightarrow> bool" where
  "path_exists fs p = (case map_of fs p of None \<Rightarrow> False | Some n \<Rightarrow> True)"

definition isfile :: "fs \<Rightarrow> str \<Rightarrow> bool" where
  "isfile fs p = (case map_of fs p of Some (File c) \<Rightarrow> True | _ \<Rightarrow> False)"

definition isdir :: "fs \<Rightarrow> str \<Rightarrow> bool" where
  "isdir fs p = (case map_of fs p of Some Dir \<Rightarrow> True | _ \<Rightarrow> False)"

text \<open>\<open>os.listdir(cwd)\<close>: the entries of the working directory itself.\<close>

definition listdir :: "fs \<Rightarrow> str list" where
  "listdir fs = filter (\<lambda>n. 47 \<notin> set n) (map fst fs)"

definition fs_remove :: "fs \<Rightarrow> str \<Rightarrow> fs" where
  "fs_remove fs p = filter (\<lambda>e. \<not> fst e = p) fs"

definition fs_put :: "fs \<Rightarrow> str \<Rightarrow> node \<Rightarrow> fs" where
  "fs_put fs p n = (p, n) # fs_remove fs p"

text \<open>The directory a path lies in exists: the working directory, or a \<open>Dir\<close> node.\<close>

definition parent_ok :: "fs \<Rightarrow> str \<Rightarrow> bool" where
  "parent_ok fs p = (if 47 \<in> set p then isdir fs (take (nat (rfind 47 p)) p) else True)"

text \<open>
  A directory moves with everything below it: \<open>rekey src dst\<close> is the new path of an
  entry.
\<close>

definition rekey :: "str \<Rightarrow> str \<Rightarrow> str \<Rightarrow> str" where
  "rekey src dst k =
     (if k = src \<or> startswith k (src @ [47]) then dst @ drop (length src) k else k)"

text \<open>
  \<open>os.rename(old, new)\<close> (POSIX): a file replaces a file that has the new name, silently;
  it cannot replace a directory. The scripts rename a directory only to a path that does
  not exist (through \<open>shutil.move\<close>); for a directory onto an existing path the model
  reports the error of the file case.
\<close>

definition os_rename :: "fs \<Rightarrow> str \<Rightarrow> str \<Rightarrow> oserror + fs" where
  "os_rename fs old new =
     (case map_of fs old of
        None \<Rightarrow> Inl FileNotFoundError
      | Some (File c) \<Rightarrow>
          (if \<not> parent_ok fs new then Inl FileNotFoundError
           else if isdir fs new then Inl IsADirectoryError
           else Inr (fs_put (fs_remove fs old) new (File c)))
      | Some Dir \<Rightarrow>
          (if \<not> parent_ok fs new then Inl FileNotFoundError
           else if path_exists fs new then Inl NotADirectoryError
           else Inr (map (\<lambda>(k, n). (rekey old new k, n)) fs)))"

text \<open>
  \<open>shutil.move(src, dst)\<close>: into \<open>dst\<close> when it is a directory, else a rename.
\<close>

definition basename :: "str \<Rightarrow> str" where
  "basename p = drop (nat (rfind 47 p + 1)) p"

definition shutil_move :: "fs \<Rightarrow> str \<Rightarrow> str \<Rightarrow> oserror + fs" where
  "shutil_move fs src dst =
     (if isdir fs dst then
        (if path_exists fs (dst @ 47 # basename src) then Inl ShutilError
         else os_rename fs src (dst @ 47 # basename src))
      else os_rename fs src dst)"

text \<open>\<open>os.makedirs(d, exist_ok=True)\<close> for a directory of the working directory.\<close>

definition makedirs :: "fs \<Rightarrow> str \<Rightarrow> oserror + fs" where
  "makedirs fs d =
     (case map_of fs d of
        None \<Rightarrow> Inr (fs_put fs d Dir)
      | Some Dir \<Rightarrow> Inr fs
      | Some (File c) \<Rightarrow> Inl FileExistsError)"

subsection \<open>Text files\<close>

text \<open>
  The scripts open the dashboard with \<open>encoding="utf-8"\<close> and the default \<open>newline\<close>.
  \<open>utf8_head\<close> decodes the code point at the head of the bytes and says how many bytes it
  takes; as the strict decoder of Python it refuses a stray continuation byte, a sequence
  cut short, an overlong form, a surrogate and a value above U+10FFFF.
\<close>

definition cont :: "nat \<Rightarrow> bool" where
  "cont b = (128 \<le> b \<and> b \<le> 191)"

definition utf8_head :: "bytes \<Rightarrow> (cp \<times> nat) option" where
  "utf8_head bs =
     (case bs of
        [] \<Rightarrow> None
      | b # r \<Rightarrow>
          (if b < 128 then Some (b, 1)
           else if 194 \<le> b \<and> b \<le> 223 then
             (case r of
                b1 # r1 \<Rightarrow>
                  (if cont b1 then Some ((b - 192) * 64 + (b1 - 128), 2) else None)
              | [] \<Rightarrow> None)
           else if 224 \<le> b \<and> b \<le> 239 then
             (case r of
                b1 # b2 # r2 \<Rightarrow>
                  (if cont b1 \<and> cont b2 \<and> (if b = 224 then 160 \<le> b1 else True)
                      \<and> (if b = 237 then b1 \<le> 159 else True)
                   then Some ((b - 224) * 4096 + (b1 - 128) * 64 + (b2 - 128), 3) else None)
              | _ \<Rightarrow> None)
           else if 240 \<le> b \<and> b \<le> 244 then
             (case r of
                b1 # b2 # b3 # r3 \<Rightarrow>
                  (if cont b1 \<and> cont b2 \<and> cont b3 \<and> (if b = 240 then 144 \<le> b1 else True)
                      \<and> (if b = 244 then b1 \<le> 143 else True)
                   then Some ((b - 240) * 262144 + (b1 - 128) * 4096 + (b2 - 128) * 64
                              + (b3 - 128), 4)
                   else None)
              | _ \<Rightarrow> None)
           else None))"

lemma utf8_head_pos: "utf8_head bs = Some (c, n) \<Longrightarrow> 0 < n \<and> bs \<noteq> []"
  by (auto simp: utf8_head_def split: list.splits if_splits)

function utf8_decode :: "bytes \<Rightarrow> str option" where
  "utf8_decode bs =
     (if bs = [] then Some []
      else (case utf8_head bs of
              None \<Rightarrow> None
            | Some (c, n) \<Rightarrow> map_option ((#) c) (utf8_decode (drop n bs))))"
  by pat_completeness auto
termination
  by (relation "measure length") (auto dest: utf8_head_pos)

declare utf8_decode.simps [simp del]

text \<open>
  Reading translates the line ends \<open>\r\n\<close> and \<open>\r\<close> to \<open>\n\<close>; writing leaves
  \<open>\n\<close> as it is (POSIX).
\<close>

fun universal_newlines :: "str \<Rightarrow> str" where
  "universal_newlines [] = []"
| "universal_newlines [c] = [if c = 13 then 10 else c]"
| "universal_newlines (c # d # r) =
     (if c = 13 \<and> d = 10 then 10 # universal_newlines r
      else if c = 13 then 10 # universal_newlines (d # r)
      else c # universal_newlines (d # r))"

definition utf8_encode_cp :: "cp \<Rightarrow> bytes option" where
  "utf8_encode_cp c =
     (if c < 128 then Some [c]
      else if c < 2048 then Some [192 + c div 64, 128 + c mod 64]
      else if 55296 \<le> c \<and> c \<le> 57343 then None
      else if c < 65536 then Some [224 + c div 4096, 128 + c div 64 mod 64, 128 + c mod 64]
      else if c < 1114112 then
        Some [240 + c div 262144, 128 + c div 4096 mod 64, 128 + c div 64 mod 64, 128 + c mod 64]
      else None)"

fun utf8_encode :: "str \<Rightarrow> bytes option" where
  "utf8_encode [] = Some []"
| "utf8_encode (c # cs) =
     (case utf8_encode_cp c of
        None \<Rightarrow> None
      | Some bs \<Rightarrow> map_option ((@) bs) (utf8_encode cs))"

text \<open>\<open>open(p, "r", encoding="utf-8").read()\<close>\<close>

definition read_text :: "fs \<Rightarrow> str \<Rightarrow> oserror + str" where
  "read_text fs p =
     (case map_of fs p of
        None \<Rightarrow> Inl FileNotFoundError
      | Some Dir \<Rightarrow> Inl IsADirectoryError
      | Some (File bs) \<Rightarrow>
          (case utf8_decode bs of
             None \<Rightarrow> Inl UnicodeDecodeError
           | Some s \<Rightarrow> Inr (universal_newlines s)))"

text \<open>
  \<open>with open(p, "w", encoding="utf-8") as f: f.write(s)\<close>. Opening creates the file or
  empties it; text that cannot be encoded raises in \<open>write\<close> and leaves the file empty.
  The result is the directory after the statement and the error, if one was raised.
\<close>

definition write_text :: "fs \<Rightarrow> str \<Rightarrow> str \<Rightarrow> fs \<times> oserror option" where
  "write_text fs p s =
     (if isdir fs p then (fs, Some IsADirectoryError)
      else if \<not> parent_ok fs p then (fs, Some FileNotFoundError)
      else (case utf8_encode s of
              None \<Rightarrow> (fs_put fs p (File []), Some UnicodeEncodeError)
            | Some bs \<Rightarrow> (fs_put fs p (File bs), None)))"

text \<open>
  \<open>shutil.copy2(src, dst)\<close> copies the bytes; into \<open>dst\<close> when it is a directory.
\<close>

definition copy2 :: "fs \<Rightarrow> str \<Rightarrow> str \<Rightarrow> oserror + fs" where
  "copy2 fs src dst =
     (case map_of fs src of
        None \<Rightarrow> Inl FileNotFoundError
      | Some Dir \<Rightarrow> Inl IsADirectoryError
      | Some (File bs) \<Rightarrow>
          (let target = (if isdir fs dst then dst @ 47 # basename src else dst)
           in if isdir fs target then Inl IsADirectoryError
              else if \<not> parent_ok fs target then Inl FileNotFoundError
              else Inr (fs_put fs target (File bs))))"

subsection \<open>Numbered candidates\<close>

text \<open>
  \<^verbatim>\<open>
  i = 2
  candidate = f"{base}-{i}{ext}"
  while os.path.exists(candidate):
      i += 1
      candidate = f"{base}-{i}{ext}"
  \<close>
  The loop ends because the directory has finitely many entries and the candidates
  differ from one another.
\<close>

definition candidate :: "str \<Rightarrow> nat \<Rightarrow> str \<Rightarrow> str" where
  "candidate base i ext = base @ 45 # str_of_nat i @ ext"

definition nat_of_digits :: "str \<Rightarrow> nat" where
  "nat_of_digits ds = foldl (\<lambda>a d. 10 * a + (d - 48)) 0 ds"

declare str_of_nat.simps [simp del]

lemma nat_of_digits_str_of_nat: "nat_of_digits (str_of_nat n) = n"
proof (induction n rule: str_of_nat.induct)
  case (1 n)
  show ?case
  proof (cases "n < 10")
    case True
    then show ?thesis
      by (simp add: str_of_nat.simps [of n] nat_of_digits_def)
  next
    case False
    with 1 have "nat_of_digits (str_of_nat (n div 10)) = n div 10"
      by simp
    with False show ?thesis
      by (simp add: str_of_nat.simps [of n] nat_of_digits_def)
  qed
qed

lemma str_of_nat_inj: "str_of_nat i = str_of_nat j \<Longrightarrow> i = j"
  by (metis nat_of_digits_str_of_nat)

lemma candidate_inj: "candidate base i ext = candidate base j ext \<Longrightarrow> i = j"
  by (simp add: candidate_def str_of_nat_inj)

lemma path_exists_fst: "path_exists fs p \<Longrightarrow> p \<in> fst ` set fs"
  by (auto simp: path_exists_def split: option.splits dest: map_of_SomeD intro: rev_image_eqI)

lemma finite_taken: "finite {j. path_exists fs (candidate base j ext)}"
proof -
  have "finite ((\<lambda>j. candidate base j ext) -` (fst ` set fs))"
    by (rule finite_vimageI) (auto simp: inj_on_def dest: candidate_inj)
  moreover have "{j. path_exists fs (candidate base j ext)}
      \<subseteq> (\<lambda>j. candidate base j ext) -` (fst ` set fs)"
    by (auto dest: path_exists_fst)
  ultimately show ?thesis
    by (rule rev_finite_subset)
qed

function free_candidate :: "fs \<Rightarrow> str \<Rightarrow> str \<Rightarrow> nat \<Rightarrow> str" where
  "free_candidate fs base ext i =
     (if path_exists fs (candidate base i ext) then free_candidate fs base ext (Suc i)
      else candidate base i ext)"
  by pat_completeness auto
termination
proof (relation "measure (\<lambda>(fs, base, ext, i).
    card {j. i \<le> j \<and> path_exists fs (candidate base j ext)})")
  show "wf (measure (\<lambda>(fs, base, ext, i).
    card {j. i \<le> j \<and> path_exists fs (candidate base j ext)}))"
    by simp
next
  fix fs :: fs and base ext :: str and i :: nat
  assume taken: "path_exists fs (candidate base i ext)"
  let ?A = "{j. Suc i \<le> j \<and> path_exists fs (candidate base j ext)}"
  let ?B = "{j. i \<le> j \<and> path_exists fs (candidate base j ext)}"
  have "finite ?B"
    by (rule finite_subset [OF _ finite_taken [of fs base ext]]) auto
  moreover from taken have "i \<in> ?B" and "i \<notin> ?A" and "?A \<subseteq> ?B"
    by auto
  then have "?A \<subset> ?B"
    by blast
  ultimately have "card ?A < card ?B"
    by (rule psubset_card_mono)
  then show "((fs, base, ext, Suc i), (fs, base, ext, i)) \<in> measure (\<lambda>(fs, base, ext, i).
    card {j. i \<le> j \<and> path_exists fs (candidate base j ext)})"
    by simp
qed

declare free_candidate.simps [simp del]

section \<open>fix_dpp_filenames.py\<close>

definition DASHBOARD_FILE :: str where
  "DASHBOARD_FILE = ascii ''RabateksDPPDashboard.html''"

definition BACKUP_SUFFIX :: str where
  "BACKUP_SUFFIX = ascii ''.backup''"

text \<open>What the scripts print, one constructor for each \<open>print\<close> statement.\<close>

datatype msg =
    WorkingDirectory
  | ErrorNoDashboard
  | NothingToRename
  | PlannedRenames
  | Planned str str
  | WarnNoBlock
  | DashboardLinkUpdates
  | LinkUpdate str str
  | NoLinkUpdates
  | DryRunNotice
  | Renaming str str
  | TargetExisted str
  | BackupCreated
  | DashboardUpdated
  | Done
  | ConflictsToSecure
  | Conflict str
  | NoConflicts
  | Moving str str
  | NoChangesMade
  | UpdatedRetailMapping

text \<open>
  How a run ends: it returns, it calls \<open>sys.exit(1)\<close>, or a library call raises and
  nothing catches it.
\<close>

datatype status = Finished | SysExit nat | Raised oserror

record outcome =
  out_fs :: fs
  out_log :: "msg list"
  out_status :: status

text \<open>\<open>f.lower().endswith((".html", ".htm"))\<close>\<close>

definition is_html :: "ucd \<Rightarrow> str \<Rightarrow> bool" where
  "is_html U f =
     (endswith (str_lower U f) (ascii ''.html'') \<or> endswith (str_lower U f) (ascii ''.htm''))"

definition html_files :: "ucd \<Rightarrow> fs \<Rightarrow> str list" where
  "html_files U fs = filter (\<lambda>f. isfile fs f \<and> is_html U f) (listdir fs)"

text \<open>
  \<^verbatim>\<open>
  for old in targets:
      new = slugify_filename(old)
      if new != old and os.path.exists(new):
          base, ext = os.path.splitext(new)
          i = 2 ... new = candidate
      if new != old:
          rename_map[old] = new
  \<close>
\<close>

definition resolve_fix :: "ucd \<Rightarrow> fs \<Rightarrow> str \<Rightarrow> str" where
  "resolve_fix U fs old =
     (let new = slugify_filename U old in
      if new \<noteq> old \<and> path_exists fs new
      then (case splitext new of (base, ext) \<Rightarrow> free_candidate fs base ext 2)
      else new)"

definition plan_fix :: "ucd \<Rightarrow> fs \<Rightarrow> str list \<Rightarrow> dict" where
  "plan_fix U fs targets =
     fold (\<lambda>old rename_map.
             (let new = resolve_fix U fs old in
              if new \<noteq> old then dict_set rename_map old new else rename_map))
          targets []"

text \<open>
  The values the block refers to and their new names. \<open>referenced\<close> is a Python set; the
  order in which the loop visits it is not fixed, and the dictionary it fills is the same
  mapping for every order. The model visits the values in the order of the block.
\<close>

definition mapping_for_block :: "ucd \<Rightarrow> fs \<Rightarrow> dict \<Rightarrow> str \<Rightarrow> dict" where
  "mapping_for_block U fs rename_map body =
     fold (\<lambda>ref m.
             (case map_of rename_map ref of
                Some new \<Rightarrow> dict_set m ref new
              | None \<Rightarrow>
                  (if path_exists fs ref \<and> slugify_filename U ref \<noteq> ref
                   then dict_set m ref (slugify_filename U ref) else m)))
          (remdups (string_vals body)) []"

text \<open>\<open>for old, new in rename_map.items(): os.rename(old, new)\<close>\<close>

fun rename_loop_fix :: "fs \<Rightarrow> msg list \<Rightarrow> dict \<Rightarrow> outcome" where
  "rename_loop_fix fs log [] = \<lparr>out_fs = fs, out_log = log, out_status = Finished\<rparr>"
| "rename_loop_fix fs log ((old, new) # rest) =
     (case os_rename fs old new of
        Inl e \<Rightarrow> \<lparr>out_fs = fs, out_log = log @ [Renaming old new], out_status = Raised e\<rparr>
      | Inr fs' \<Rightarrow> rename_loop_fix fs' (log @ [Renaming old new]) rest)"

text \<open>
  The last step of both scripts: the backup, unless a path of that name exists, then the
  new body spliced into the document and the document written.
\<close>

definition update_dashboard ::
  "fs \<Rightarrow> msg list \<Rightarrow> str \<Rightarrow> nat \<Rightarrow> nat \<Rightarrow> str \<Rightarrow> dict \<Rightarrow> outcome" where
  "update_dashboard fs log dashboard_html start stop body mapping =
     (let backup_path = DASHBOARD_FILE @ BACKUP_SUFFIX;
          new_body = replace_urls_in_block body mapping;
          new_html = take start dashboard_html @ new_body @ drop stop dashboard_html
      in if \<not> path_exists fs backup_path then
           (case copy2 fs DASHBOARD_FILE backup_path of
              Inl e \<Rightarrow> \<lparr>out_fs = fs, out_log = log, out_status = Raised e\<rparr>
            | Inr fs1 \<Rightarrow>
                (case write_text fs1 DASHBOARD_FILE new_html of
                   (fs2, Some e) \<Rightarrow>
                     \<lparr>out_fs = fs2, out_log = log @ [BackupCreated], out_status = Raised e\<rparr>
                 | (fs2, None) \<Rightarrow>
                     \<lparr>out_fs = fs2, out_log = log @ [BackupCreated, DashboardUpdated, Done],
                       out_status = Finished\<rparr>))
         else
           (case write_text fs DASHBOARD_FILE new_html of
              (fs2, Some e) \<Rightarrow> \<lparr>out_fs = fs2, out_log = log, out_status = Raised e\<rparr>
            | (fs2, None) \<Rightarrow>
                \<lparr>out_fs = fs2, out_log = log @ [DashboardUpdated, Done], out_status = Finished\<rparr>))"

text \<open>\<open>main\<close>; \<open>dry_run\<close> is \<open>"--dry-run" in sys.argv\<close>.\<close>

definition plan_log :: "dict \<Rightarrow> msg list" where
  "plan_log rename_map =
     (if rename_map = [] then [NothingToRename]
      else PlannedRenames # map (\<lambda>(old, new). Planned old new) rename_map)"

definition links_log :: "dict \<Rightarrow> msg list" where
  "links_log mapping =
     (if mapping = [] then [NoLinkUpdates]
      else DashboardLinkUpdates # map (\<lambda>(old, new). LinkUpdate old new) mapping)"

definition main_fix :: "ucd \<Rightarrow> bool \<Rightarrow> fs \<Rightarrow> outcome" where
  "main_fix U dry_run fs =
     (if DASHBOARD_FILE \<notin> set (html_files U fs) then
        \<lparr>out_fs = fs, out_log = [WorkingDirectory, ErrorNoDashboard], out_status = SysExit 1\<rparr>
      else
        (let rename_map = plan_fix U fs (filter (\<lambda>f. f \<noteq> DASHBOARD_FILE) (html_files U fs));
             log1 = WorkingDirectory # plan_log rename_map
         in case read_text fs DASHBOARD_FILE of
              Inl e \<Rightarrow> \<lparr>out_fs = fs, out_log = log1, out_status = Raised e\<rparr>
            | Inr dashboard_html \<Rightarrow>
                (case find_dpp_urls_block U dashboard_html of
                   None \<Rightarrow>
                     (if dry_run then
                        \<lparr>out_fs = fs, out_log = log1 @ [WarnNoBlock, DryRunNotice],
                          out_status = Finished\<rparr>
                      else
                        (let r = rename_loop_fix fs (log1 @ [WarnNoBlock]) rename_map
                         in case out_status r of
                              Finished \<Rightarrow> r\<lparr>out_log := out_log r @ [Done]\<rparr>
                            | _ \<Rightarrow> r))
                 | Some (start, stop, body) \<Rightarrow>
                     (let mapping = mapping_for_block U fs rename_map body;
                          log2 = log1 @ links_log mapping
                      in if dry_run then
                           \<lparr>out_fs = fs, out_log = log2 @ [DryRunNotice], out_status = Finished\<rparr>
                         else
                           (let r = rename_loop_fix fs log2 rename_map
                            in case out_status r of
                                 Finished \<Rightarrow>
                                   update_dashboard (out_fs r) (out_log r) dashboard_html
                                     start stop body mapping
                               | _ \<Rightarrow> r)))))"

section \<open>dpp_cleanup.py\<close>

definition OLD_DIR :: str where
  "OLD_DIR = ascii ''OLD_FILES''"

text \<open>
  \<^verbatim>\<open>
  for old in targets:
      new = slugify_filename(old)
      if new != old:
          rename_map[old] = new
  conflicts = [v for k, v in rename_map.items() if os.path.exists(v)]
  \<close>
\<close>

definition plan_cleanup :: "ucd \<Rightarrow> str list \<Rightarrow> dict" where
  "plan_cleanup U targets =
     fold (\<lambda>old rename_map.
             (if slugify_filename U old \<noteq> old
              then dict_set rename_map old (slugify_filename U old) else rename_map))
          targets []"

definition conflicts_of :: "fs \<Rightarrow> dict \<Rightarrow> str list" where
  "conflicts_of fs rename_map = map snd (filter (\<lambda>(k, v). path_exists fs v) rename_map)"

text \<open>
  \<open>os.path.join(cwd, OLD_DIR, c)\<close>, relative to the working directory; a component that
  starts with a slash makes \<open>join\<close> drop what stands before it.
\<close>

definition join_old_dir :: "str \<Rightarrow> str" where
  "join_old_dir c = (if take 1 c = [47] then c else OLD_DIR @ 47 # c)"

text \<open>
  \<^verbatim>\<open>
  base, ext = os.path.splitext(dst)
  i = 2
  while os.path.exists(dst):
      dst = f"{base}-{i}{ext}"
      i += 1
  \<close>
\<close>

definition quarantine_dst :: "fs \<Rightarrow> str \<Rightarrow> str" where
  "quarantine_dst fs c =
     (if path_exists fs (join_old_dir c)
      then (case splitext (join_old_dir c) of (base, ext) \<Rightarrow> free_candidate fs base ext 2)
      else join_old_dir c)"

fun quarantine_loop :: "fs \<Rightarrow> msg list \<Rightarrow> str list \<Rightarrow> outcome" where
  "quarantine_loop fs log [] = \<lparr>out_fs = fs, out_log = log, out_status = Finished\<rparr>"
| "quarantine_loop fs log (c # cs) =
     (case shutil_move fs c (quarantine_dst fs c) of
        Inl e \<Rightarrow> \<lparr>out_fs = fs, out_log = log @ [Moving c (quarantine_dst fs c)],
                   out_status = Raised e\<rparr>
      | Inr fs' \<Rightarrow> quarantine_loop fs' (log @ [Moving c (quarantine_dst fs c)]) cs)"

definition quarantine :: "fs \<Rightarrow> msg list \<Rightarrow> str list \<Rightarrow> outcome" where
  "quarantine fs log conflicts =
     (case makedirs fs OLD_DIR of
        Inl e \<Rightarrow> \<lparr>out_fs = fs, out_log = log, out_status = Raised e\<rparr>
      | Inr fs' \<Rightarrow> quarantine_loop fs' log conflicts)"

text \<open>
  \<^verbatim>\<open>
  for old, new in rename_map.items():
      if old == new: continue
      if os.path.exists(new):
          base, ext = os.path.splitext(new)
          i = 2 ... new = candidate
      os.rename(old, new)
  \<close>
\<close>

definition resolve_cleanup :: "fs \<Rightarrow> str \<Rightarrow> str" where
  "resolve_cleanup fs new =
     (if path_exists fs new
      then (case splitext new of (base, ext) \<Rightarrow> free_candidate fs base ext 2)
      else new)"

fun rename_loop_cleanup :: "fs \<Rightarrow> msg list \<Rightarrow> dict \<Rightarrow> outcome" where
  "rename_loop_cleanup fs log [] = \<lparr>out_fs = fs, out_log = log, out_status = Finished\<rparr>"
| "rename_loop_cleanup fs log ((old, new) # rest) =
     (if old = new then rename_loop_cleanup fs log rest
      else
        (let log' = log @ Renaming old new #
               (if path_exists fs new then [TargetExisted (resolve_cleanup fs new)] else [])
         in case os_rename fs old (resolve_cleanup fs new) of
              Inl e \<Rightarrow> \<lparr>out_fs = fs, out_log = log', out_status = Raised e\<rparr>
            | Inr fs' \<Rightarrow> rename_loop_cleanup fs' log' rest))"

definition conflicts_log :: "str list \<Rightarrow> msg list" where
  "conflicts_log conflicts =
     (if conflicts = [] then [NoConflicts] else ConflictsToSecure # map Conflict conflicts)"

text \<open>
  \<open>after_quarantine\<close> is \<open>main\<close> from the line that prints the plan: \<open>fs\<close> and \<open>log\<close>
  are the directory and the output the lines before it have left.
\<close>

definition after_quarantine :: "ucd \<Rightarrow> bool \<Rightarrow> dict \<Rightarrow> fs \<Rightarrow> msg list \<Rightarrow> outcome" where
  "after_quarantine U dry rename_map fs log =
     (let log1 = log @ plan_log rename_map
      in case read_text fs DASHBOARD_FILE of
           Inl e \<Rightarrow> \<lparr>out_fs = fs, out_log = log1, out_status = Raised e\<rparr>
         | Inr dashboard_html \<Rightarrow>
             (case find_dpp_urls_block U dashboard_html of
                None \<Rightarrow>
                  (if dry then
                     \<lparr>out_fs = fs, out_log = log1 @ [WarnNoBlock, DryRunNotice],
                       out_status = Finished\<rparr>
                   else
                     (let r = rename_loop_cleanup fs (log1 @ [WarnNoBlock]) rename_map
                      in case out_status r of
                           Finished \<Rightarrow> r\<lparr>out_log := out_log r @ [Done]\<rparr>
                         | _ \<Rightarrow> r))
              | Some (start, stop, body) \<Rightarrow>
                  (let mapping = mapping_for_block U fs rename_map body;
                       log2 = log1 @ links_log mapping
                   in if dry then
                        \<lparr>out_fs = fs, out_log = log2 @ [DryRunNotice], out_status = Finished\<rparr>
                      else
                        (let r = rename_loop_cleanup fs log2 rename_map
                         in case out_status r of
                              Finished \<Rightarrow>
                                update_dashboard (out_fs r) (out_log r) dashboard_html
                                  start stop body mapping
                            | _ \<Rightarrow> r))))"

definition main_cleanup :: "ucd \<Rightarrow> bool \<Rightarrow> fs \<Rightarrow> outcome" where
  "main_cleanup U dry fs =
     (if DASHBOARD_FILE \<notin> set (html_files U fs) then
        \<lparr>out_fs = fs, out_log = [WorkingDirectory, ErrorNoDashboard], out_status = SysExit 1\<rparr>
      else
        (let rename_map = plan_cleanup U (filter (\<lambda>f. f \<noteq> DASHBOARD_FILE) (html_files U fs));
             conflicts = conflicts_of fs rename_map;
             log0 = WorkingDirectory # conflicts_log conflicts
         in if \<not> dry \<and> conflicts \<noteq> [] then
              (let q = quarantine fs log0 conflicts
               in case out_status q of
                    Finished \<Rightarrow> after_quarantine U dry rename_map (out_fs q) (out_log q)
                  | _ \<Rightarrow> q)
            else after_quarantine U dry rename_map fs log0))"

section \<open>auto_fix_dashboard_mapping.py\<close>






text \<open>\<open>ov in new_html\<close>\<close>

fun str_contains :: "str \<Rightarrow> str \<Rightarrow> bool" where
  "str_contains [] k = (k = [])"
| "str_contains (c # cs) k = (startswith (c # cs) k \<or> str_contains cs k)"



section \<open>Reading the scripts' data\<close>

lemma plan_log_reports: "(old, new) \<in> set rename_map \<Longrightarrow> Planned old new \<in> set (plan_log rename_map)"
  by (auto simp: plan_log_def intro: rev_image_eqI)

lemma links_log_reports: "(old, new) \<in> set m \<Longrightarrow> LinkUpdate old new \<in> set (links_log m)"
  by (auto simp: links_log_def intro: rev_image_eqI)

lemma html_files_isfile: "f \<in> set (html_files U fs) \<Longrightarrow> isfile fs f"
  by (simp add: html_files_def)

lemma utf8_decode_ascii: "list_all (\<lambda>b. b < 128) bs \<Longrightarrow> utf8_decode bs = Some bs"
proof (induction bs)
  case Nil
  show ?case by (subst utf8_decode.simps) simp
next
  case (Cons b bs)
  then show ?case
    by (subst utf8_decode.simps) (simp add: utf8_head_def)
qed

lemma utf8_encode_ascii: "list_all (\<lambda>b. b < 128) s \<Longrightarrow> utf8_encode s = Some s"
  by (induction s) (simp_all add: utf8_encode_cp_def)

lemma universal_newlines_id: "13 \<notin> set s \<Longrightarrow> universal_newlines s = s"
  by (induction s rule: universal_newlines.induct) auto

lemma read_text_ascii:
  "map_of fs p = Some (File bs) \<Longrightarrow> list_all (\<lambda>b. b < 128 \<and> b \<noteq> 13) bs \<Longrightarrow>
   read_text fs p = Inr bs"
proof -
  assume m: "map_of fs p = Some (File bs)" and a: "list_all (\<lambda>b. b < 128 \<and> b \<noteq> 13) bs"
  from a have "list_all (\<lambda>b. b < 128) bs" and "13 \<notin> set bs"
    by (auto simp: list_all_iff)
  then have "utf8_decode bs = Some bs" and "universal_newlines bs = bs"
    by (simp_all add: utf8_decode_ascii universal_newlines_id)
  with m show ?thesis
    by (simp add: read_text_def)
qed

text \<open>
  The directory of the specification's scenario B: the dashboard (with no mapping block)
  and two files whose names differ in case only.
\<close>

definition scenario_b :: fs where
  "scenario_b =
     [(DASHBOARD_FILE, File (ascii ''<html></html>'')),
      (ascii ''Report (final).html'', File (ascii ''A'')),
      (ascii ''Report (FINAL).html'', File (ascii ''B''))]"

lemmas slug_eval = slugify_filename_def slug_base_def norm_ext_def splitext_def rfind_def
  ascii_def ascii_ucd_def ascii_lower_def ascii_space_def is_space_def strip_class_def
  apply_replacements_def replacements_def slug_char_def hyphen_or_dot_def

lemma html_files_scenario_b:
  "html_files ascii_ucd scenario_b =
     [DASHBOARD_FILE, ascii ''Report (final).html'', ascii ''Report (FINAL).html'']"
  by (simp add: html_files_def scenario_b_def listdir_def isfile_def is_html_def endswith_def
      DASHBOARD_FILE_def ascii_def ascii_ucd_def ascii_lower_def)

section \<open>The slugifier on plain text\<close>

text \<open>
  On text of plain code points every database that is sound gives the slug the ASCII
  database gives.
\<close>

lemma ucd_sound_ascii_ucd: "ucd_sound ascii_ucd"
  by (simp add: ucd_sound_def ascii_ucd_def is_space_def ascii_lower_def image_iff)

lemma is_space_plain: "ucd_sound U \<Longrightarrow> plain c \<Longrightarrow> is_space U c = ascii_space c"
  by (simp add: ucd_sound_def)

lemma is_space_ascii_ucd: "is_space ascii_ucd = ascii_space"
  by (rule ext) (simp add: is_space_def ascii_ucd_def)

lemma strip_class_cong_on:
  assumes h: "\<And>c. c \<in> set s \<Longrightarrow> p c = q c"
  shows "strip_class p s = strip_class q s"
proof -
  from h have a: "dropWhile p s = dropWhile q s"
    by (rule dropWhile_cong [OF refl])
  have "dropWhile p (rev (dropWhile q s)) = dropWhile q (rev (dropWhile q s))"
  proof (rule dropWhile_cong [OF refl])
    fix x assume "x \<in> set (rev (dropWhile q s))"
    then have "x \<in> set s"
      by (auto dest: set_dropWhileD)
    then show "p x = q x"
      by (rule h)
  qed
  with a show ?thesis
    by (simp add: strip_class_def)
qed

lemma set_strip_class: "set (strip_class p s) \<subseteq> set s"
proof
  fix x assume "x \<in> set (strip_class p s)"
  then have "x \<in> set (dropWhile p (rev (dropWhile p s)))"
    by (simp add: strip_class_def)
  then have "x \<in> set (rev (dropWhile p s))"
    by (rule set_dropWhileD)
  then have "x \<in> set (dropWhile p s)"
    by simp
  then show "x \<in> set s"
    by (rule set_dropWhileD)
qed

lemma sub_spaces_plain:
  "ucd_sound U \<Longrightarrow> list_all plain s \<Longrightarrow> sub_spaces U s = sub_spaces ascii_ucd s"
proof (induction s rule: length_induct)
  case (1 s)
  show ?case
  proof (cases s)
    case Nil
    then show ?thesis by simp
  next
    case (Cons c cs)
    with 1 have pc: "plain c" and pcs: "list_all plain cs" by simp_all
    have eq: "dropWhile (is_space U) cs = dropWhile ascii_space cs"
    proof (rule dropWhile_cong [OF refl])
      fix x assume "x \<in> set cs"
      with pcs have "plain x" by (simp add: list_all_iff)
      then show "is_space U x = ascii_space x"
        by (rule is_space_plain [OF "1.prems"(1)])
    qed
    have pd: "list_all plain (dropWhile ascii_space cs)"
      using pcs by (auto simp: list_all_iff dest: set_dropWhileD)
    have len: "length (dropWhile ascii_space cs) < length s"
      using Cons by (simp add: length_dropWhile_le less_Suc_eq_le)
    have "sub_spaces U (dropWhile ascii_space cs) = sub_spaces ascii_ucd (dropWhile ascii_space cs)"
      using 1 len pd by blast
    moreover have "sub_spaces U cs = sub_spaces ascii_ucd cs"
      using 1 Cons pcs by simp
    ultimately show ?thesis
      using Cons pc eq is_space_plain [OF "1.prems"(1) pc]
      by (simp add: is_space_ascii_ucd)
  qed
qed

lemma set_str_replace: "set (str_replace k v s) \<subseteq> set v \<union> set s"
proof (induction k v s rule: str_replace.induct)
  case (1 k v)
  then show ?case by auto
next
  case (2 k v c cs)
  have d: "set (drop (length k) (c # cs)) \<subseteq> set (c # cs)"
    by (rule set_drop_subset)
  show ?case
  proof (cases "k = []")
    case True
    with "2.IH"(1) have "set (str_replace k v cs) \<subseteq> set v \<union> set cs"
      by blast
    moreover from True have "str_replace k v (c # cs) = v @ c # str_replace k v cs"
      by simp
    ultimately show ?thesis
      by auto
  next
    case False
    show ?thesis
    proof (cases "take (length k) (c # cs) = k")
      case True
      with False "2.IH"(2)
      have "set (str_replace k v (drop (length k) (c # cs))) \<subseteq> set v \<union> set (drop (length k) (c # cs))"
        by blast
      moreover from False True
      have "str_replace k v (c # cs) = v @ str_replace k v (drop (length k) (c # cs))"
        by simp
      ultimately show ?thesis
        using d by (simp only: set_append) blast
    next
      case nt: False
      with False "2.IH"(3) have "set (str_replace k v cs) \<subseteq> set v \<union> set cs"
        by blast
      moreover from False nt have "str_replace k v (c # cs) = c # str_replace k v cs"
        by simp
      ultimately show ?thesis
        by auto
    qed
  qed
qed

lemma of_char_lt_256: "(of_char c :: nat) < 256"
  by (cases c) (simp add: of_bool_def)


lemma str_replace_plain:
  "list_all plain v \<Longrightarrow> list_all plain t \<Longrightarrow> list_all plain (str_replace k v t)"
  using set_str_replace [of k v t] unfolding list_all_iff by blast

lemma fold_replace_plain:
  "list_all (\<lambda>(k, v). list_all plain v) rs \<Longrightarrow> list_all plain t \<Longrightarrow>
   list_all plain (fold (\<lambda>(k, v) t. str_replace k v t) rs t)"
  by (induction rs arbitrary: t) (auto intro: str_replace_plain)

lemma apply_replacements_plain: "list_all plain s \<Longrightarrow> list_all plain (apply_replacements s)"
  unfolding apply_replacements_def
  by (rule fold_replace_plain) (simp_all add: replacements_def ascii_def plain_def)

lemma list_all_strip_class: "list_all P s \<Longrightarrow> list_all P (strip_class p s)"
  using set_strip_class [of p s] unfolding list_all_iff by blast

lemma slug_base_plain:
  assumes U: "ucd_sound U" and p: "list_all plain b"
  shows "slug_base U b = slug_base ascii_ucd b"
proof -
  from U p have n: "normalize_nfkc U b = b"
    by (simp add: ucd_sound_def)
  have st: "strip_class (is_space U) b = strip_class ascii_space b"
    using p by (intro strip_class_cong_on is_space_plain [OF U]) (simp add: list_all_iff)
  have ps: "list_all plain (strip_class ascii_space b)"
    using p by (rule list_all_strip_class)
  with U have lo: "str_lower U (strip_class ascii_space b) = map ascii_lower (strip_class ascii_space b)"
    by (simp add: ucd_sound_def)
  have pl: "list_all plain (map ascii_lower (strip_class ascii_space b))"
    using ps by (auto simp: list_all_iff plain_def ascii_lower_def)
  then have pr: "list_all plain (apply_replacements (map ascii_lower (strip_class ascii_space b)))"
    by (rule apply_replacements_plain)
  show ?thesis
    unfolding slug_base_def Let_def n st lo sub_spaces_plain [OF U pr]
    by (simp add: ascii_ucd_def is_space_ascii_ucd [unfolded ascii_ucd_def])
qed

lemma splitext_parts: "set (fst (splitext p)) \<subseteq> set p \<and> set (snd (splitext p)) \<subseteq> set p"
  by (auto simp: splitext_def Let_def dest: in_set_takeD in_set_dropD)

lemma norm_ext_plain:
  "ucd_sound U \<Longrightarrow> list_all plain e \<Longrightarrow> norm_ext U e = norm_ext ascii_ucd e"
  by (simp add: norm_ext_def ucd_sound_def ascii_ucd_def)

lemma slugify_plain:
  assumes U: "ucd_sound U" and p: "list_all plain name"
  shows "slugify_filename U name = slugify_filename ascii_ucd name"
proof -
  from p splitext_parts [of name]
  have "list_all plain (fst (splitext name))" and "list_all plain (snd (splitext name))"
    unfolding list_all_iff by blast+
  with U show ?thesis
    by (simp add: slugify_filename_def split_beta slug_base_plain norm_ext_plain)
qed

lemma scenario_a_ascii:
  "slugify_filename ascii_ucd
     (ascii ''Rabateks DPP '' @ [8212] @ ascii '' Retail/Distribution Management.html'') =
   ascii ''rabateks-dpp-retail-distribution-management.html''"
  by (simp add: slug_eval)

text \<open>
  C9. The slug of "Rabateks DPP (em dash) Retail/Distribution Management.html" is
  "rabateks-dpp-retail-distribution-management.html", for every sound database.
\<close>

theorem scenario_a_slug:
  "ucd_sound U \<Longrightarrow>
   slugify_filename U
     (ascii ''Rabateks DPP '' @ [8212] @ ascii '' Retail/Distribution Management.html'') =
   ascii ''rabateks-dpp-retail-distribution-management.html''"
proof -
  assume U: "ucd_sound U"
  have p: "list_all plain
     (ascii ''Rabateks DPP '' @ [8212] @ ascii '' Retail/Distribution Management.html'')"
    by (simp add: ascii_def plain_def)
  show ?thesis
    by (simp only: slugify_plain [OF U p] scenario_a_ascii)
qed

theorem scenario_a_slug_witness:
  "ucd_sound ascii_ucd \<and>
   slugify_filename ascii_ucd
     (ascii ''Rabateks DPP '' @ [8212] @ ascii '' Retail/Distribution Management.html'') =
   ascii ''rabateks-dpp-retail-distribution-management.html''"
  by (rule conjI [OF ucd_sound_ascii_ucd scenario_a_slug [OF ucd_sound_ascii_ucd]])

section \<open>The shape of a slug\<close>

text \<open>Two hyphens in a row somewhere in the text.\<close>

fun has_double_hyphen :: "str \<Rightarrow> bool" where
  "has_double_hyphen [] = False"
| "has_double_hyphen (c # cs) = ((c = 45 \<and> take 1 cs = [45]) \<or> has_double_hyphen cs)"

text \<open>
  What the slugifier makes of the part before the extension: not empty, of the class
  \<open>[a-z0-9\-.]\<close> only, neither end a hyphen or a full stop, no two hyphens in a row.
\<close>

definition clean_base :: "str \<Rightarrow> bool" where
  "clean_base s =
     (s \<noteq> [] \<and> list_all slug_char s \<and> \<not> hyphen_or_dot (hd s) \<and> \<not> hyphen_or_dot (last s) \<and>
      \<not> has_double_hyphen s)"

text \<open>
  The Slug of the specification, in its words: not empty; lowercase ASCII letters, digits,
  hyphen and a single full stop (the one before the extension) only; a base that is not
  empty; no hyphen or full stop at either end; no two hyphens in a row.
\<close>

definition valid_slug :: "str \<Rightarrow> bool" where
  "valid_slug s =
     (s \<noteq> [] \<and> list_all slug_char s \<and> count_list s 46 \<le> 1 \<and>
      takeWhile (\<lambda>c. \<not> c = 46) s \<noteq> [] \<and>
      \<not> hyphen_or_dot (hd s) \<and> \<not> hyphen_or_dot (last s) \<and> \<not> has_double_hyphen s)"

lemma collapse_head: "take 1 s \<noteq> [45] \<Longrightarrow> take 1 (collapse_hyphens s) \<noteq> [45]"
  by (cases s) auto

lemma dropWhile_head: "take 1 (dropWhile (\<lambda>x. x = (45::nat)) s) \<noteq> [45]"
  by (induction s) auto

lemma collapse_no_double: "\<not> has_double_hyphen (collapse_hyphens s)"
proof (induction s rule: collapse_hyphens.induct)
  case 1
  then show ?case by simp
next
  case (2 c cs)
  show ?case
  proof (cases "c = 45 \<and> take 1 cs = [45]")
    case True
    with 2 have "\<not> has_double_hyphen (collapse_hyphens (dropWhile (\<lambda>x. x = 45) cs))"
      by simp
    moreover have "take 1 (collapse_hyphens (dropWhile (\<lambda>x. x = 45) cs)) \<noteq> [45]"
      by (rule collapse_head [OF dropWhile_head])
    ultimately show ?thesis
      using True by simp
  next
    case False
    with 2 have ih: "\<not> has_double_hyphen (collapse_hyphens cs)"
      by simp
    have "c = 45 \<Longrightarrow> take 1 (collapse_hyphens cs) \<noteq> [45]"
      using False by (intro collapse_head) simp
    with False ih show ?thesis
      by auto
  qed
qed

lemma set_collapse: "set (collapse_hyphens s) \<subseteq> set s"
proof (induction s rule: collapse_hyphens.induct)
  case 1
  then show ?case by simp
next
  case (2 c cs)
  have "set (dropWhile (\<lambda>x. x = 45) cs) \<subseteq> set cs"
    by (auto dest: set_dropWhileD)
  with 2 show ?case
    by (cases "c = 45 \<and> take 1 cs = [45]") auto
qed

lemma no_double_append:
  "\<not> has_double_hyphen (a @ b) \<Longrightarrow> \<not> has_double_hyphen a \<and> \<not> has_double_hyphen b"
proof (induction a)
  case Nil
  then show ?case by simp
next
  case (Cons c a)
  then show ?case
    by (cases a) auto
qed

lemma no_double_strip: "\<not> has_double_hyphen s \<Longrightarrow> \<not> has_double_hyphen (strip_class p s)"
proof -
  assume h: "\<not> has_double_hyphen s"
  have "s = takeWhile p s @ dropWhile p s" by simp
  with h have a: "\<not> has_double_hyphen (dropWhile p s)"
    using no_double_append by metis
  let ?t = "dropWhile p s"
  have "rev ?t = takeWhile p (rev ?t) @ dropWhile p (rev ?t)" by simp
  then have "?t = rev (dropWhile p (rev ?t)) @ rev (takeWhile p (rev ?t))"
    by (metis rev_append rev_rev_ident)
  with a have "\<not> has_double_hyphen (rev (dropWhile p (rev ?t)))"
    using no_double_append by metis
  then show ?thesis
    by (simp add: strip_class_def)
qed

lemma strip_class_ends:
  "strip_class p s \<noteq> [] \<Longrightarrow> \<not> p (hd (strip_class p s)) \<and> \<not> p (last (strip_class p s))"
proof -
  let ?t = "dropWhile p s"
  let ?r = "dropWhile p (rev ?t)"
  assume ne: "strip_class p s \<noteq> []"
  then have r: "?r \<noteq> []" by (simp add: strip_class_def)
  then have l: "\<not> p (hd ?r)" by (rule hd_dropWhile)
  have last: "last (strip_class p s) = hd ?r"
    using r by (simp add: strip_class_def last_rev)
  have t: "?t \<noteq> []"
  proof
    assume e: "?t = []"
    have "?r = []" unfolding e by simp
    with r show False by simp
  qed
  then have ht: "\<not> p (hd ?t)" by (rule hd_dropWhile)
  have "rev ?t = takeWhile p (rev ?t) @ ?r" by simp
  then have "?t = rev ?r @ rev (takeWhile p (rev ?t))"
    by (metis rev_append rev_rev_ident)
  then have "hd ?t = hd (rev ?r)"
    using r by (metis hd_append2 rev_is_Nil_conv)
  with ht last l show ?thesis
    by (simp add: strip_class_def)
qed

lemma clean_base_slug_base: "clean_base (slug_base U b)"
proof -
  define x where "x = filter slug_char (sub_spaces U (apply_replacements
      (str_lower U (strip_class (is_space U) (normalize_nfkc U b)))))"
  define s where "s = strip_class hyphen_or_dot (collapse_hyphens x)"
  have sb: "slug_base U b = (if s = [] then ascii ''file'' else s)"
    by (simp add: slug_base_def Let_def s_def x_def)
  show ?thesis
  proof (cases "s = []")
    case True
    with sb show ?thesis
      by (simp add: clean_base_def ascii_def slug_char_def hyphen_or_dot_def)
  next
    case False
    have "set s \<subseteq> set x"
      unfolding s_def using set_strip_class set_collapse by (meson subset_trans)
    then have all: "list_all slug_char s"
      by (auto simp: list_all_iff x_def)
    have nd: "\<not> has_double_hyphen s"
      unfolding s_def by (rule no_double_strip [OF collapse_no_double])
    from False strip_class_ends [of hyphen_or_dot "collapse_hyphens x"]
    have "\<not> hyphen_or_dot (hd s) \<and> \<not> hyphen_or_dot (last s)"
      by (simp add: s_def)
    with False all nd sb show ?thesis
      by (simp add: clean_base_def)
  qed
qed


lemma double_hyphen_append:
  "has_double_hyphen (a @ b) =
     (has_double_hyphen a \<or> has_double_hyphen b \<or> (a \<noteq> [] \<and> last a = 45 \<and> take 1 b = [45]))"
proof (induction a)
  case Nil
  then show ?case by simp
next
  case (Cons c a)
  then show ?case by (cases a) auto
qed

lemma clean_html:
  assumes "clean_base b"
  shows "list_all slug_char (b @ ascii ''.html'') \<and> \<not> hyphen_or_dot (hd (b @ ascii ''.html'')) \<and>
     \<not> hyphen_or_dot (last (b @ ascii ''.html'')) \<and> \<not> has_double_hyphen (b @ ascii ''.html'') \<and>
     endswith (b @ ascii ''.html'') (ascii ''.html'')"
  using assms
  by (simp add: clean_base_def ascii_def slug_char_def hyphen_or_dot_def endswith_def
      double_hyphen_append)

lemma slug_versioned:
  "slugify_filename ascii_ucd (ascii ''Report v1.2.html'') = ascii ''report-v1.2.html''"
  by (simp add: slug_eval)

lemma slug_odd_extension:
  "slugify_filename ascii_ucd (ascii ''notes.T_x'') = ascii ''notes.t_x''"
  by (simp add: slug_eval)

text \<open>
  C4, as the claim states it, fails: the full stops of the base stay (a version number
  gives a slug with two of them), and an extension other than .html or .htm is only
  lower-cased, whatever it holds.
\<close>

theorem slug_validity_counterexample:
  "\<not> valid_slug (slugify_filename ascii_ucd (ascii ''Report v1.2.html'')) \<and>
   \<not> list_all slug_char (slugify_filename ascii_ucd (ascii ''notes.T_x''))"
  unfolding slug_versioned slug_odd_extension
  by (simp add: valid_slug_def ascii_def slug_char_def)

text \<open>
  C4, amended. For every name and every database the slug is the cleaned base followed
  by the normalised extension; the base is not empty, holds only lowercase ASCII letters,
  digits, hyphens and full stops, begins and ends with a letter or a digit and has no two
  hyphens in a row. When the normalised extension is .html, all of that holds of the
  whole slug, which ends in .html.
\<close>

theorem slug_shape:
  "slugify_filename U name =
     slug_base U (fst (splitext name)) @ norm_ext U (snd (splitext name)) \<and>
   clean_base (slug_base U (fst (splitext name))) \<and>
   (norm_ext U (snd (splitext name)) = ascii ''.html'' \<longrightarrow>
      list_all slug_char (slugify_filename U name) \<and>
      \<not> hyphen_or_dot (hd (slugify_filename U name)) \<and>
      \<not> hyphen_or_dot (last (slugify_filename U name)) \<and>
      \<not> has_double_hyphen (slugify_filename U name) \<and>
      endswith (slugify_filename U name) (ascii ''.html''))"
proof -
  have eq: "slugify_filename U name =
      slug_base U (fst (splitext name)) @ norm_ext U (snd (splitext name))"
    by (simp add: slugify_filename_def split_beta)
  show ?thesis
    unfolding eq using clean_base_slug_base [of U "fst (splitext name)"] clean_html
    by auto
qed

theorem slug_shape_witness:
  "norm_ext ascii_ucd (snd (splitext (ascii ''Report v1.2.html''))) = ascii ''.html'' \<and>
   clean_base (slug_base ascii_ucd (fst (splitext (ascii ''Report v1.2.html'')))) \<and>
   list_all slug_char (slugify_filename ascii_ucd (ascii ''Report v1.2.html'')) \<and>
   endswith (slugify_filename ascii_ucd (ascii ''Report v1.2.html'')) (ascii ''.html'')"
proof -
  have e: "norm_ext ascii_ucd (snd (splitext (ascii ''Report v1.2.html''))) = ascii ''.html''"
    by (simp add: norm_ext_def splitext_def rfind_def ascii_def ascii_ucd_def ascii_lower_def)
  with slug_shape [of ascii_ucd "ascii ''Report v1.2.html''"] show ?thesis
    by blast
qed


section \<open>Slugifying a slug\<close>

lemma rfind_notin: "c \<notin> set s \<Longrightarrow> rfind c s = - 1"
proof -
  assume "c \<notin> set s"
  then have "dropWhile (\<lambda>x. x \<noteq> c) (rev s) = []"
    by (auto simp: dropWhile_eq_Nil_conv)
  then show ?thesis
    by (simp add: rfind_def)
qed

lemma rfind_last: "c \<notin> set b \<Longrightarrow> rfind c (a @ c # b) = int (length a)"
proof -
  assume "c \<notin> set b"
  then have "dropWhile (\<lambda>x. x \<noteq> c) (rev b @ c # rev a) = c # rev a"
    by (auto simp: dropWhile_append3)
  then show ?thesis
    by (simp add: rfind_def)
qed

lemma rfind_ge: "- 1 \<le> rfind c s"
  by (simp add: rfind_def)

lemma splitext_nodot: "46 \<notin> set s \<Longrightarrow> splitext s = (s, [])"
  using rfind_ge [of 47 s] by (simp add: splitext_def rfind_notin Let_def)

lemma splitext_join:
  assumes "s \<noteq> []" "hd s \<noteq> 46" "47 \<notin> set s" "46 \<notin> set t" "47 \<notin> set t"
  shows "splitext (s @ 46 # t) = (s, 46 # t)"
proof -
  have d: "rfind 46 (s @ 46 # t) = int (length s)"
    using assms(4) by (rule rfind_last)
  have "47 \<notin> set (s @ 46 # t)"
    using assms by simp
  then have p: "rfind 47 (s @ 46 # t) = - 1"
    by (rule rfind_notin)
  have "list_ex (\<lambda>c. \<not> c = 46) s"
    using assms(1,2) by (cases s) auto
  then show ?thesis
    by (simp add: splitext_def d p Let_def)
qed

lemma splitext_ext_shape:
  assumes "snd (splitext x) \<noteq> []"
  shows "\<exists>t. snd (splitext x) = 46 # t \<and> 46 \<notin> set t \<and> 47 \<notin> set t"
proof -
  from assms have gt: "rfind 46 x > rfind 47 x"
    and e: "snd (splitext x) = drop (nat (rfind 46 x)) x"
    by (auto simp: splitext_def Let_def split: if_splits)
  have in46: "46 \<in> set x"
  proof (rule ccontr)
    assume "46 \<notin> set x"
    then have "rfind 46 x = - 1" by (rule rfind_notin)
    with gt rfind_ge [of 47 x] show False by simp
  qed
  then obtain a b where x: "x = a @ 46 # b" and nb: "46 \<notin> set b"
    using split_list_last [of 46 x] by blast
  have d: "rfind 46 x = int (length a)"
    unfolding x using nb by (rule rfind_last)
  have s47: "47 \<notin> set b"
  proof
    assume "47 \<in> set b"
    then obtain b1 b2 where b: "b = b1 @ 47 # b2" and n2: "47 \<notin> set b2"
      using split_list_last [of 47 b] by blast
    have "x = (a @ 46 # b1) @ 47 # b2"
      by (simp add: x b)
    then have "rfind 47 x = int (length (a @ 46 # b1))"
      using n2 rfind_last by metis
    with gt d show False by simp
  qed
  from e d x have "snd (splitext x) = 46 # b"
    by simp
  with nb s47 show ?thesis
    by blast
qed


lemma strip_class_id: "s \<noteq> [] \<Longrightarrow> \<not> p (hd s) \<Longrightarrow> \<not> p (last s) \<Longrightarrow> strip_class p s = s"
proof -
  assume ne: "s \<noteq> []" and h: "\<not> p (hd s)" and l: "\<not> p (last s)"
  from ne h have a: "dropWhile p s = s"
    by (cases s) auto
  from ne l have "dropWhile p (rev s) = rev s"
    by (cases "rev s") (auto simp: hd_rev)
  with a show ?thesis
    by (simp add: strip_class_def)
qed

lemma str_replace_absent: "c \<notin> set s \<Longrightarrow> str_replace [c] v s = s"
  by (induction s) auto

lemma sub_spaces_none: "list_all (\<lambda>c. \<not> is_space U c) s \<Longrightarrow> sub_spaces U s = s"
  by (induction s) auto

lemma collapse_none: "\<not> has_double_hyphen s \<Longrightarrow> collapse_hyphens s = s"
  by (induction s) auto

lemma slug_char_facts:
  "slug_char c \<Longrightarrow> plain c \<and> \<not> ascii_space c \<and> ascii_lower c = c \<and> c < 128"
  by (auto simp: slug_char_def plain_def ascii_space_def ascii_lower_def)

lemma apply_replacements_clean:
  assumes "list_all slug_char s"
  shows "apply_replacements s = s"
proof -
  have "\<And>c v. \<not> slug_char c \<Longrightarrow> str_replace [c] v s = s"
    using assms by (intro str_replace_absent) (auto simp: list_all_iff)
  then show ?thesis
    by (simp add: apply_replacements_def replacements_def ascii_def slug_char_def)
qed

lemma slug_base_fixed:
  assumes U: "ucd_sound U" and c: "clean_base s"
  shows "slug_base U s = s"
proof -
  from c have all: "list_all slug_char s" and ne: "s \<noteq> []"
    and h: "\<not> hyphen_or_dot (hd s)" and l: "\<not> hyphen_or_dot (last s)"
    and nd: "\<not> has_double_hyphen s"
    by (simp_all add: clean_base_def)
  from all have pl: "list_all plain s" and lo: "map ascii_lower s = s"
    and nsp: "list_all (\<lambda>c. \<not> is_space U c) s"
    using slug_char_facts by (auto simp: list_all_iff is_space_def map_idI)
  from ne all have "slug_char (hd s)" "slug_char (last s)"
    by (auto simp: list_all_iff)
  then have "\<not> is_space U (hd s)" "\<not> is_space U (last s)"
    using slug_char_facts by (auto simp: is_space_def)
  with ne have st: "strip_class (is_space U) s = s"
    by (intro strip_class_id)
  from U pl have n: "normalize_nfkc U s = s" and lw: "str_lower U s = map ascii_lower s"
    by (simp_all add: ucd_sound_def)
  from all have f: "filter slug_char s = s"
    by (simp add: list_all_iff)
  show ?thesis
    using ne
    by (simp add: slug_base_def Let_def n st lw lo apply_replacements_clean [OF all]
        sub_spaces_none [OF nsp] f collapse_none [OF nd] strip_class_id [OF ne h l])
qed

lemma norm_ext_nil: "ucd_sound U \<Longrightarrow> norm_ext U [] = []"
  by (simp add: norm_ext_def ucd_sound_def ascii_def)

lemma lower_html: "ucd_sound U \<Longrightarrow> str_lower U (ascii ''.html'') = ascii ''.html''"
proof -
  assume U: "ucd_sound U"
  have "list_all plain (ascii ''.html'')"
    by (simp add: ascii_def plain_def)
  with U have "str_lower U (ascii ''.html'') = map ascii_lower (ascii ''.html'')"
    by (simp add: ucd_sound_def)
  then show ?thesis
    by (simp add: ascii_def ascii_lower_def)
qed

lemma norm_ext_idem: "ucd_sound U \<Longrightarrow> norm_ext U (norm_ext U e) = norm_ext U e"
proof (cases "str_lower U e = ascii ''.html'' \<or> str_lower U e = ascii ''.htm''")
  case True
  assume "ucd_sound U"
  with True show ?thesis
    by (simp add: norm_ext_def lower_html)
next
  case False
  assume "ucd_sound U"
  then have "str_lower U (str_lower U e) = str_lower U e"
    by (simp add: ucd_sound_def)
  with False show ?thesis
    by (simp add: norm_ext_def)
qed

lemma norm_ext_shape:
  assumes U: "ucd_sound U" and t: "46 \<notin> set t" "47 \<notin> set t"
  shows "\<exists>t'. norm_ext U (46 # t) = 46 # t' \<and> 46 \<notin> set t' \<and> 47 \<notin> set t'"
proof (cases "str_lower U (46 # t) = ascii ''.html'' \<or> str_lower U (46 # t) = ascii ''.htm''")
  case True
  then have "norm_ext U (46 # t) = 46 # ascii ''html''"
    by (simp add: norm_ext_def ascii_def)
  moreover have "46 \<notin> set (ascii ''html'')" "47 \<notin> set (ascii ''html'')"
    by (simp_all add: ascii_def)
  ultimately show ?thesis
    by blast
next
  case False
  from U have "str_lower U (46 # t) = 46 # str_lower U t"
    by (simp add: ucd_sound_def)
  with False have "norm_ext U (46 # t) = 46 # str_lower U t"
    by (simp add: norm_ext_def)
  moreover from U t have "46 \<notin> set (str_lower U t)" "47 \<notin> set (str_lower U t)"
    unfolding ucd_sound_def by blast+
  ultimately show ?thesis
    by blast
qed

lemma slug_a_htm_slash:
  "slugify_filename ascii_ucd (ascii ''a.htm/'') = ascii ''a.htm''"
  by (simp add: slug_eval)

lemma slug_a_htm:
  "slugify_filename ascii_ucd (ascii ''a.htm'') = ascii ''a.html''"
  by (simp add: slug_eval)

text \<open>
  C3, as stated, fails: the name \<^verbatim>\<open>a.htm/\<close> has no extension for
  \<^verbatim>\<open>os.path.splitext\<close> (its last full stop precedes the last slash), so its slug is
  \<^verbatim>\<open>a.htm\<close>; slugifying that once more normalises the extension and gives
  \<^verbatim>\<open>a.html\<close>.
\<close>

theorem slugify_idempotent_counterexample:
  "slugify_filename ascii_ucd (slugify_filename ascii_ucd (ascii ''a.htm/'')) \<noteq>
   slugify_filename ascii_ucd (ascii ''a.htm/'')"
  unfolding slug_a_htm_slash slug_a_htm by (simp add: ascii_def)

text \<open>
  C3, amended: slugifying a slug returns it unchanged whenever \<^verbatim>\<open>os.path.splitext\<close>
  finds an extension in the original name, or the slug contains no full stop.
\<close>

theorem slugify_idempotent:
  assumes U: "ucd_sound U"
    and x: "snd (splitext name) \<noteq> [] \<or> 46 \<notin> set (slugify_filename U name)"
  shows "slugify_filename U (slugify_filename U name) = slugify_filename U name"
proof -
  define b where "b = slug_base U (fst (splitext name))"
  define e where "e = norm_ext U (snd (splitext name))"
  have slug: "slugify_filename U name = b @ e"
    by (simp add: slugify_filename_def split_beta b_def e_def)
  have cb: "clean_base b"
    unfolding b_def by (rule clean_base_slug_base)
  then have ne: "b \<noteq> []" and hd: "hd b \<noteq> 46" and all: "list_all slug_char b"
    by (simp_all add: clean_base_def hyphen_or_dot_def)
  from all have no47: "47 \<notin> set b"
    by (auto simp: list_all_iff slug_char_def)
  have fixd: "slug_base U b = b"
    using U cb by (rule slug_base_fixed)
  show ?thesis
  proof (cases "snd (splitext name) = []")
    case True
    with U have e0: "e = []"
      by (simp add: e_def norm_ext_nil)
    with x True slug have "46 \<notin> set b"
      by simp
    then have "splitext b = (b, [])"
      by (rule splitext_nodot)
    with U fixd have "slugify_filename U b = b"
      by (simp add: slugify_filename_def norm_ext_nil)
    then show ?thesis
      by (simp only: slug e0 append_Nil2)
  next
    case False
    then obtain t where t: "snd (splitext name) = 46 # t" "46 \<notin> set t" "47 \<notin> set t"
      using splitext_ext_shape by blast
    then obtain t' where t': "e = 46 # t'" "46 \<notin> set t'" "47 \<notin> set t'"
      using norm_ext_shape [OF U] unfolding e_def by metis
    have sp: "splitext (b @ 46 # t') = (b, 46 # t')"
      using ne hd no47 t'(2,3) by (rule splitext_join)
    have "norm_ext U e = e"
      unfolding e_def using U by (rule norm_ext_idem)
    with sp fixd have "slugify_filename U (b @ 46 # t') = b @ 46 # t'"
      by (simp add: slugify_filename_def t'(1))
    then show ?thesis
      by (simp only: slug t'(1))
  qed
qed

theorem slugify_idempotent_witness:
  "ucd_sound ascii_ucd \<and> snd (splitext (ascii ''Report (final).html'')) \<noteq> [] \<and>
   slugify_filename ascii_ucd (slugify_filename ascii_ucd (ascii ''Report (final).html'')) =
   slugify_filename ascii_ucd (ascii ''Report (final).html'')"
proof -
  have e: "snd (splitext (ascii ''Report (final).html'')) \<noteq> []"
    by (simp add: splitext_def rfind_def ascii_def)
  with slugify_idempotent [OF ucd_sound_ascii_ucd, of "ascii ''Report (final).html''"]
    ucd_sound_ascii_ucd
  show ?thesis
    by blast
qed


section \<open>The rewriter and the literals of the block\<close>

text \<open>
  The description of the rewriter speaks of quoted literals: an opening quote of either kind,
  a content, and the same quote again. \<open>literal_at s\<close> reads one at the head of the text,
  with a content that is not empty and holds no quote of either kind, and returns the quote,
  the content and the text after the closing quote.
\<close>

definition literal_at :: "str \<Rightarrow> (cp \<times> str \<times> str) option" where
  "literal_at s =
     (case s of
        [] \<Rightarrow> None
      | q # cs \<Rightarrow>
          (let v = takeWhile (\<lambda>c. \<not> is_quote c) cs;
               r = dropWhile (\<lambda>c. \<not> is_quote c) cs
           in if is_quote q \<and> \<not> v = [] \<and> take 1 r = [q] then Some (q, v, drop 1 r) else None))"

text \<open>
  A block read from the left is a sequence of pieces: a literal wherever one starts, any
  other code point alone. Rendering the pieces gives the block back; the rewriter of the
  description replaces the content of each literal that is a key of the plan.
\<close>

datatype piece = Lit cp str | Other cp

fun render :: "piece \<Rightarrow> str" where
  "render (Lit q v) = q # v @ [q]"
| "render (Other c) = [c]"

fun rewrite_piece :: "dict \<Rightarrow> piece \<Rightarrow> piece" where
  "rewrite_piece plan (Lit q v) = Lit q (case map_of plan v of Some target \<Rightarrow> target | None \<Rightarrow> v)"
| "rewrite_piece plan (Other c) = Other c"

lemma literal_at_shorter: "literal_at s = Some (q, v, r) \<Longrightarrow> length r < length s"
proof -
  assume a: "literal_at s = Some (q, v, r)"
  then obtain cs where s: "s = q # cs" and r: "r = drop 1 (dropWhile (\<lambda>c. \<not> is_quote c) cs)"
    by (cases s) (auto simp: literal_at_def Let_def split: if_splits)
  have "length (dropWhile (\<lambda>c. \<not> is_quote c) cs) \<le> length cs"
    by (rule length_dropWhile_le)
  then show ?thesis
    by (simp add: s r)
qed

function pieces :: "str \<Rightarrow> piece list" where
  "pieces [] = []"
| "pieces (c # cs) =
     (case literal_at (c # cs) of
        Some (q, v, r) \<Rightarrow> Lit q v # pieces r
      | None \<Rightarrow> Other c # pieces cs)"
  by pat_completeness auto
termination
  by (relation "measure length") (auto dest: literal_at_shorter)

lemma lazy_val_takeWhile:
  "is_quote q \<Longrightarrow>
   lazy_val q acc cs =
     (if \<not> takeWhile (\<lambda>c. \<not> is_quote c) cs = [] \<and>
         take 1 (dropWhile (\<lambda>c. \<not> is_quote c) cs) = [q]
      then Some (acc @ takeWhile (\<lambda>c. \<not> is_quote c) cs,
                 drop 1 (dropWhile (\<lambda>c. \<not> is_quote c) cs))
      else None)"
proof (induction cs arbitrary: acc)
  case Nil
  then show ?case by simp
next
  case (Cons c cs)
  show ?case
  proof (cases "is_quote c")
    case True
    then show ?thesis by simp
  next
    case False
    note nq = this
    show ?thesis
    proof (cases "take 1 cs = [q]")
      case True
      then obtain cs' where cs: "cs = q # cs'"
        by (cases cs) auto
      with nq Cons.prems show ?thesis
        by simp
    next
      case False
      have "takeWhile (\<lambda>c. \<not> is_quote c) cs = [] \<Longrightarrow>
            take 1 (dropWhile (\<lambda>c. \<not> is_quote c) cs) \<noteq> [q]"
      proof -
        assume e: "takeWhile (\<lambda>c. \<not> is_quote c) cs = []"
        then have "dropWhile (\<lambda>c. \<not> is_quote c) cs = cs"
          by (cases cs) (auto split: if_splits)
        with False show ?thesis
          by simp
      qed
      with nq False Cons.IH [OF Cons.prems, of "acc @ [c]"] show ?thesis
        by auto
    qed
  qed
qed

lemma match_string_val_literal_at: "match_string_val s = literal_at s"
proof (cases s)
  case Nil
  then show ?thesis by (simp add: literal_at_def)
next
  case (Cons q cs)
  show ?thesis
  proof (cases "is_quote q")
    case True
    then show ?thesis
      by (simp add: Cons literal_at_def Let_def lazy_val_takeWhile)
  next
    case False
    then show ?thesis
      by (simp add: Cons literal_at_def Let_def)
  qed
qed

lemma literal_at_text: "literal_at s = Some (q, v, r) \<Longrightarrow> s = q # v @ q # r"
proof -
  assume a: "literal_at s = Some (q, v, r)"
  then obtain cs where s: "s = q # cs"
      and v: "v = takeWhile (\<lambda>c. \<not> is_quote c) cs"
      and r: "r = drop 1 (dropWhile (\<lambda>c. \<not> is_quote c) cs)"
      and t: "take 1 (dropWhile (\<lambda>c. \<not> is_quote c) cs) = [q]"
    by (cases s) (auto simp: literal_at_def Let_def split: if_splits)
  from t have "dropWhile (\<lambda>c. \<not> is_quote c) cs = q # r"
    unfolding r by (cases "dropWhile (\<lambda>c. \<not> is_quote c) cs") auto
  moreover have "cs = takeWhile (\<lambda>c. \<not> is_quote c) cs @ dropWhile (\<lambda>c. \<not> is_quote c) cs"
    by simp
  ultimately have "cs = v @ q # r"
    by (simp add: v)
  then show ?thesis
    by (simp add: s)
qed

lemma render_pieces: "concat (map render (pieces s)) = s"
proof (induction s rule: pieces.induct)
  case 1
  then show ?case by simp
next
  case (2 c cs)
  show ?case
  proof (cases "literal_at (c # cs)")
    case None
    with 2 show ?thesis by simp
  next
    case (Some x)
    then obtain q v r where x: "literal_at (c # cs) = Some (q, v, r)"
      by (cases x) auto
    have ih: "concat (map render (pieces r)) = r"
      using 2(2) x by simp
    have "pieces (c # cs) = Lit q v # pieces r"
      using x by simp
    then have "concat (map render (pieces (c # cs))) = q # v @ q # r"
      by (simp add: ih)
    with literal_at_text [OF x] show ?thesis
      by simp
  qed
qed

lemma sub_string_val_pieces:
  "sub_string_val f s =
     concat (map (\<lambda>p. case p of Lit q v \<Rightarrow> f q v | Other c \<Rightarrow> [c]) (pieces s))"
proof (induction s rule: pieces.induct)
  case 1
  then show ?case by simp
next
  case (2 c cs)
  show ?case
  proof (cases "literal_at (c # cs)")
    case None
    with 2 show ?thesis
      by (simp add: match_string_val_literal_at del: match_string_val.simps)
  next
    case (Some x)
    then obtain q v r where x: "literal_at (c # cs) = Some (q, v, r)"
      by (cases x) auto
    have ih: "sub_string_val f r =
        concat (map (\<lambda>p. case p of Lit q v \<Rightarrow> f q v | Other c \<Rightarrow> [c]) (pieces r))"
      using 2(2) x by simp
    from x show ?thesis
      by (simp add: ih match_string_val_literal_at del: match_string_val.simps)
  qed
qed

lemma render_rewrite:
  "render (rewrite_piece plan p) =
     (case p of Lit q v \<Rightarrow> q # dict_get plan v v @ [q] | Other c \<Rightarrow> [c])"
  by (cases p) (simp_all add: dict_get_def split: option.splits)

text \<open>
  What the rewriter does, in the terms of the description: among the literals that the
  scan from the left pairs (a content that is not empty and holds no quote of either
  kind), it replaces the content of each one that is a key of the plan by the plan's
  target, between the same quotes, and every other code point of the block is unchanged.
\<close>

lemma replace_urls_in_pieces:
  "concat (map render (pieces block_text)) = block_text \<and>
   replace_urls_in_block block_text plan =
     concat (map render (map (rewrite_piece plan) (pieces block_text)))"
  by (simp add: render_pieces replace_urls_in_block_def sub_string_val_pieces render_rewrite
      comp_def)


section \<open>Two names with one slug\<close>

lemma slug_report_final:
  "slugify_filename ascii_ucd (ascii ''Report (final).html'') = ascii ''report-final.html''"
  by (simp add: slug_eval)

lemma slug_report_FINAL:
  "slugify_filename ascii_ucd (ascii ''Report (FINAL).html'') = ascii ''report-final.html''"
  by (simp add: slug_eval)

lemma targets_scenario_b:
  "filter (\<lambda>f. f \<noteq> DASHBOARD_FILE) (html_files ascii_ucd scenario_b) =
     [ascii ''Report (final).html'', ascii ''Report (FINAL).html'']"
  unfolding html_files_scenario_b by (simp add: DASHBOARD_FILE_def ascii_def)

lemma ascii_eq_iff: "ascii a = ascii b \<longleftrightarrow> a = b"
  by (simp add: ascii_def inj_map_eq_map inj_on_def)

lemma resolve_fix_final:
  "resolve_fix ascii_ucd scenario_b (ascii ''Report (final).html'') = ascii ''report-final.html''"
  unfolding resolve_fix_def slug_report_final
  by (simp add: path_exists_def scenario_b_def DASHBOARD_FILE_def ascii_def)

lemma resolve_fix_FINAL:
  "resolve_fix ascii_ucd scenario_b (ascii ''Report (FINAL).html'') = ascii ''report-final.html''"
  unfolding resolve_fix_def slug_report_FINAL
  by (simp add: path_exists_def scenario_b_def DASHBOARD_FILE_def ascii_def)

lemma plan_fix_scenario_b:
  "plan_fix ascii_ucd scenario_b [ascii ''Report (final).html'', ascii ''Report (FINAL).html''] =
     [(ascii ''Report (final).html'', ascii ''report-final.html''),
      (ascii ''Report (FINAL).html'', ascii ''report-final.html'')]"
  by (simp add: plan_fix_def resolve_fix_final resolve_fix_FINAL ascii_eq_iff)

lemma plan_cleanup_scenario_b:
  "plan_cleanup ascii_ucd [ascii ''Report (final).html'', ascii ''Report (FINAL).html''] =
     [(ascii ''Report (final).html'', ascii ''report-final.html''),
      (ascii ''Report (FINAL).html'', ascii ''report-final.html'')]"
  by (simp add: plan_cleanup_def slug_report_final slug_report_FINAL ascii_eq_iff)

lemma no_block_scenario_b: "find_dpp_urls_block ascii_ucd (ascii ''<html></html>'') = None"
  by (simp add: find_dpp_urls_block_def match_open_def startswith_def ascii_def)

lemma read_dashboard_scenario_b: "read_text scenario_b DASHBOARD_FILE = Inr (ascii ''<html></html>'')"
  by (rule read_text_ascii) (simp_all add: scenario_b_def ascii_def)

lemma dashboard_in_scenario_b: "DASHBOARD_FILE \<in> set (html_files ascii_ucd scenario_b)"
  by (simp add: html_files_scenario_b)

lemma rename_loop_fix_scenario_b:
  "rename_loop_fix scenario_b log
     [(ascii ''Report (final).html'', ascii ''report-final.html''),
      (ascii ''Report (FINAL).html'', ascii ''report-final.html'')] =
   \<lparr>out_fs = [(ascii ''report-final.html'', File (ascii ''B'')),
              (DASHBOARD_FILE, File (ascii ''<html></html>''))],
     out_log = log @ [Renaming (ascii ''Report (final).html'') (ascii ''report-final.html''),
                      Renaming (ascii ''Report (FINAL).html'') (ascii ''report-final.html'')],
     out_status = Finished\<rparr>"
  by (simp add: os_rename_def scenario_b_def parent_ok_def isdir_def fs_put_def fs_remove_def
      DASHBOARD_FILE_def ascii_def)

lemma splitext_report_final:
  "splitext (ascii ''report-final.html'') = (ascii ''report-final'', ascii ''.html'')"
  by (simp add: splitext_def rfind_def ascii_def)

lemma candidate_report_final_2:
  "candidate (ascii ''report-final'') 2 (ascii ''.html'') = ascii ''report-final-2.html''"
  by (simp add: candidate_def str_of_nat.simps ascii_def)

lemma rename_cleanup_first:
  "os_rename scenario_b (ascii ''Report (final).html'') (ascii ''report-final.html'') =
     Inr [(ascii ''report-final.html'', File (ascii ''A'')),
          (DASHBOARD_FILE, File (ascii ''<html></html>'')),
          (ascii ''Report (FINAL).html'', File (ascii ''B''))]"
  by (simp add: os_rename_def scenario_b_def parent_ok_def isdir_def fs_put_def fs_remove_def
      DASHBOARD_FILE_def ascii_def)

lemma resolve_cleanup_second:
  "resolve_cleanup
     [(ascii ''report-final.html'', File (ascii ''A'')),
      (DASHBOARD_FILE, File (ascii ''<html></html>'')),
      (ascii ''Report (FINAL).html'', File (ascii ''B''))]
     (ascii ''report-final.html'') = ascii ''report-final-2.html''"
  unfolding resolve_cleanup_def splitext_report_final
  by (simp add: path_exists_def free_candidate.simps [of _ _ _ 2] candidate_report_final_2)
    (simp add: DASHBOARD_FILE_def ascii_def)

lemma rename_cleanup_second:
  "os_rename
     [(ascii ''report-final.html'', File (ascii ''A'')),
      (DASHBOARD_FILE, File (ascii ''<html></html>'')),
      (ascii ''Report (FINAL).html'', File (ascii ''B''))]
     (ascii ''Report (FINAL).html'') (ascii ''report-final-2.html'') =
     Inr [(ascii ''report-final-2.html'', File (ascii ''B'')),
          (ascii ''report-final.html'', File (ascii ''A'')),
          (DASHBOARD_FILE, File (ascii ''<html></html>''))]"
  by (simp add: os_rename_def parent_ok_def isdir_def fs_put_def fs_remove_def
      DASHBOARD_FILE_def ascii_def)

lemma rename_loop_cleanup_scenario_b:
  "out_fs (rename_loop_cleanup scenario_b log
     [(ascii ''Report (final).html'', ascii ''report-final.html''),
      (ascii ''Report (FINAL).html'', ascii ''report-final.html'')]) =
     [(ascii ''report-final-2.html'', File (ascii ''B'')),
      (ascii ''report-final.html'', File (ascii ''A'')),
      (DASHBOARD_FILE, File (ascii ''<html></html>''))] \<and>
   out_status (rename_loop_cleanup scenario_b log
     [(ascii ''Report (final).html'', ascii ''report-final.html''),
      (ascii ''Report (FINAL).html'', ascii ''report-final.html'')]) = Finished"
proof -
  have a: "resolve_cleanup scenario_b (ascii ''report-final.html'') = ascii ''report-final.html''"
    by (simp add: resolve_cleanup_def path_exists_def scenario_b_def DASHBOARD_FILE_def ascii_def)
  show ?thesis
    by (simp add: a rename_cleanup_first resolve_cleanup_second rename_cleanup_second
        ascii_eq_iff Let_def)
qed

lemma conflicts_scenario_b:
  "conflicts_of scenario_b
     [(ascii ''Report (final).html'', ascii ''report-final.html''),
      (ascii ''Report (FINAL).html'', ascii ''report-final.html'')] = []"
  by (simp add: conflicts_of_def path_exists_def scenario_b_def DASHBOARD_FILE_def ascii_def)

lemma main_cleanup_scenario_b:
  "out_fs (main_cleanup ascii_ucd False scenario_b) =
     [(ascii ''report-final-2.html'', File (ascii ''B'')),
      (ascii ''report-final.html'', File (ascii ''A'')),
      (DASHBOARD_FILE, File (ascii ''<html></html>''))]"
  unfolding main_cleanup_def after_quarantine_def targets_scenario_b plan_cleanup_scenario_b
  by (simp add: dashboard_in_scenario_b read_dashboard_scenario_b no_block_scenario_b
      conflicts_scenario_b rename_loop_cleanup_scenario_b Let_def
      del: rename_loop_cleanup.simps)

text \<open>
  C1 on the directory of scenario B. fix_dpp_filenames.py looks for a taken name on the
  disk only, where \<^verbatim>\<open>report-final.html\<close> does not exist yet: both files are planned
  onto it. dpp_cleanup.py looks again when it renames, and the two files end under
  \<^verbatim>\<open>report-final.html\<close> and \<^verbatim>\<open>report-final-2.html\<close>.
\<close>

theorem fix_plan_targets_collide:
  "map snd (plan_fix ascii_ucd scenario_b
      (filter (\<lambda>f. f \<noteq> DASHBOARD_FILE) (html_files ascii_ucd scenario_b))) =
     [ascii ''report-final.html'', ascii ''report-final.html''] \<and>
   map fst (out_fs (main_cleanup ascii_ucd False scenario_b)) =
     [ascii ''report-final-2.html'', ascii ''report-final.html'', DASHBOARD_FILE]"
  unfolding targets_scenario_b plan_fix_scenario_b main_cleanup_scenario_b by simp

text \<open>
  C2 on the directory of scenario B. The run of fix_dpp_filenames.py ends normally and
  leaves one report, with the text of the second file: the second \<open>os.rename\<close> has
  replaced the first file, whose text \<open>A\<close> is nowhere in the directory. dpp_cleanup.py
  keeps both texts.
\<close>

theorem fix_rename_overwrites:
  "out_status (main_fix ascii_ucd False scenario_b) = Finished \<and>
   out_fs (main_fix ascii_ucd False scenario_b) =
     [(ascii ''report-final.html'', File (ascii ''B'')),
      (DASHBOARD_FILE, File (ascii ''<html></html>''))] \<and>
   out_fs (main_cleanup ascii_ucd False scenario_b) =
     [(ascii ''report-final-2.html'', File (ascii ''B'')),
      (ascii ''report-final.html'', File (ascii ''A'')),
      (DASHBOARD_FILE, File (ascii ''<html></html>''))]"
  unfolding main_fix_def targets_scenario_b plan_fix_scenario_b main_cleanup_scenario_b
  by (simp add: dashboard_in_scenario_b read_dashboard_scenario_b no_block_scenario_b
      rename_loop_fix_scenario_b Let_def del: rename_loop_fix.simps)


section \<open>Directories, dictionaries and plans\<close>

lemma map_of_fs_remove: "map_of (fs_remove fs p) q = (if q = p then None else map_of fs q)"
  unfolding fs_remove_def by (induction fs) auto

lemma map_of_fs_put: "map_of (fs_put fs p n) q = (if q = p then Some n else map_of fs q)"
  by (simp add: fs_put_def map_of_fs_remove)

lemma os_rename_file:
  assumes "map_of fs old = Some (File c)" and "47 \<notin> set new" and "\<not> isdir fs new"
  shows "os_rename fs old new = Inr (fs_put (fs_remove fs old) new (File c))"
  using assms by (simp add: os_rename_def parent_ok_def)

lemma map_of_renamed:
  "map_of (fs_put (fs_remove fs old) new n) q =
     (if q = new then Some n else if q = old then None else map_of fs q)"
  by (simp add: map_of_fs_put map_of_fs_remove)

lemma set_dict_set: "set (dict_set d k v) \<subseteq> insert (k, v) (set d)"
  by (induction d) (auto split: if_splits)

lemma keys_dict_set: "fst ` set (dict_set d k v) = insert k (fst ` set d)"
proof (induction d)
  case Nil
  then show ?case by simp
next
  case (Cons e d)
  obtain k' v' where e: "e = (k', v')" by (cases e)
  show ?case
  proof (cases "k' = k")
    case True
    then show ?thesis by (simp add: e)
  next
    case False
    then show ?thesis by (simp add: e Cons.IH insert_commute)
  qed
qed

lemma distinct_dict_set: "distinct (map fst d) \<Longrightarrow> distinct (map fst (dict_set d k v))"
proof (induction d)
  case Nil
  then show ?case by simp
next
  case (Cons e d)
  obtain k' v' where e: "e = (k', v')" by (cases e)
  show ?case
  proof (cases "k' = k")
    case True
    with Cons.prems show ?thesis by (simp add: e)
  next
    case False
    from Cons have "distinct (map fst (dict_set d k v))" by simp
    moreover from Cons.prems False have "k' \<notin> fst ` set (dict_set d k v)"
      by (simp add: e keys_dict_set)
    ultimately show ?thesis using False by (simp add: e)
  qed
qed

lemma fold_plan_inv:
  assumes "distinct (map fst d)"
    and "\<forall>(k, t) \<in> set d. t = f k \<and> t \<noteq> k \<and> k \<in> A"
    and "set xs \<subseteq> A"
  shows "distinct (map fst (fold (\<lambda>old m. if f old \<noteq> old then dict_set m old (f old) else m) xs d)) \<and>
         (\<forall>(k, t) \<in> set (fold (\<lambda>old m. if f old \<noteq> old then dict_set m old (f old) else m) xs d).
            t = f k \<and> t \<noteq> k \<and> k \<in> A)"
  using assms
proof (induction xs arbitrary: d)
  case Nil
  then show ?case by simp
next
  case (Cons x xs)
  let ?d = "if f x \<noteq> x then dict_set d x (f x) else d"
  have 1: "distinct (map fst ?d)"
    using Cons.prems(1) by (simp add: distinct_dict_set)
  have 2: "\<forall>(k, t) \<in> set ?d. t = f k \<and> t \<noteq> k \<and> k \<in> A"
  proof (cases "f x \<noteq> x")
    case True
    have "set (dict_set d x (f x)) \<subseteq> insert (x, f x) (set d)"
      by (rule set_dict_set)
    with True Cons.prems(2,3) show ?thesis by auto
  next
    case False
    with Cons.prems(2) show ?thesis by simp
  qed
  from Cons.prems(3) have 3: "set xs \<subseteq> A" by simp
  from Cons.IH [OF 1 2 3] show ?case by simp
qed

lemma plan_fix_entries:
  "(k, t) \<in> set (plan_fix U fs xs) \<Longrightarrow> k \<in> set xs \<and> t = resolve_fix U fs k \<and> t \<noteq> k"
  using fold_plan_inv [of "[]" "resolve_fix U fs" "set xs" xs]
  by (auto simp: plan_fix_def Let_def)

lemma plan_fix_distinct: "distinct (map fst (plan_fix U fs xs))"
  using fold_plan_inv [of "[]" "resolve_fix U fs" "set xs" xs]
  by (simp add: plan_fix_def Let_def)

lemma plan_cleanup_entries:
  "(k, t) \<in> set (plan_cleanup U xs) \<Longrightarrow> k \<in> set xs \<and> t = slugify_filename U k \<and> t \<noteq> k"
  using fold_plan_inv [of "[]" "slugify_filename U" "set xs" xs]
  by (auto simp: plan_cleanup_def)

lemma plan_cleanup_distinct: "distinct (map fst (plan_cleanup U xs))"
  using fold_plan_inv [of "[]" "slugify_filename U" "set xs" xs]
  by (simp add: plan_cleanup_def)

lemma free_candidate_free: "\<not> path_exists fs (free_candidate fs base ext i)"
proof (induction fs base ext i rule: free_candidate.induct)
  case (1 fs base ext i)
  then show ?case
    by (subst free_candidate.simps) simp
qed

lemma free_candidate_is: "\<exists>j. free_candidate fs base ext i = candidate base j ext"
proof (induction fs base ext i rule: free_candidate.induct)
  case (1 fs base ext i)
  show ?case
  proof (cases "path_exists fs (candidate base i ext)")
    case True
    with 1 show ?thesis
      by (subst free_candidate.simps) simp
  next
    case False
    then have "free_candidate fs base ext i = candidate base i ext"
      by (subst free_candidate.simps) simp
    then show ?thesis by blast
  qed
qed

lemma resolve_fix_free: "resolve_fix U fs k \<noteq> k \<Longrightarrow> \<not> path_exists fs (resolve_fix U fs k)"
  by (auto simp: resolve_fix_def Let_def free_candidate_free split: if_splits prod.splits)

lemma resolve_cleanup_free: "\<not> path_exists fs (resolve_cleanup fs new)"
  by (simp add: resolve_cleanup_def free_candidate_free split: prod.splits)

lemma str_of_nat_no_slash: "47 \<notin> set (str_of_nat n)"
proof (induction n rule: str_of_nat.induct)
  case (1 n)
  show ?case
  proof (cases "n < 10")
    case True
    then show ?thesis
      by (simp add: str_of_nat.simps [of n])
  next
    case False
    with 1 have "47 \<notin> set (str_of_nat (n div 10))"
      by simp
    with False show ?thesis
      by (simp add: str_of_nat.simps [of n])
  qed
qed

lemma slugify_no_slash:
  assumes U: "ucd_sound U"
  shows "47 \<notin> set (slugify_filename U name)"
proof -
  have "clean_base (slug_base U (fst (splitext name)))"
    by (rule clean_base_slug_base)
  then have b: "47 \<notin> set (slug_base U (fst (splitext name)))"
    by (auto simp: clean_base_def list_all_iff slug_char_def)
  have e: "47 \<notin> set (norm_ext U (snd (splitext name)))"
  proof (cases "snd (splitext name) = []")
    case True
    with U show ?thesis by (simp add: norm_ext_nil)
  next
    case False
    then obtain t where t: "snd (splitext name) = 46 # t" "46 \<notin> set t" "47 \<notin> set t"
      using splitext_ext_shape by blast
    from norm_ext_shape [OF U t(2,3)] t(1) show ?thesis
      by auto
  qed
  from b e show ?thesis
    by (simp add: slugify_filename_def split_beta)
qed

lemma candidate_no_slash:
  "47 \<notin> set new \<Longrightarrow> splitext new = (base, ext) \<Longrightarrow> 47 \<notin> set (free_candidate fs base ext i)"
proof -
  assume n: "47 \<notin> set new" and s: "splitext new = (base, ext)"
  from splitext_parts [of new] s have "set base \<subseteq> set new" "set ext \<subseteq> set new"
    by simp_all
  with n have "47 \<notin> set base" "47 \<notin> set ext"
    by auto
  moreover obtain j where "free_candidate fs base ext i = candidate base j ext"
    using free_candidate_is by blast
  ultimately show ?thesis
    by (simp add: candidate_def str_of_nat_no_slash)
qed

lemma resolve_fix_no_slash:
  assumes U: "ucd_sound U"
  shows "47 \<notin> set (resolve_fix U fs k)"
proof -
  obtain base ext where s: "splitext (slugify_filename U k) = (base, ext)"
    by (cases "splitext (slugify_filename U k)")
  have "47 \<notin> set (free_candidate fs base ext 2)"
    using slugify_no_slash [OF U] s by (rule candidate_no_slash)
  with slugify_no_slash [OF U, of k] s show ?thesis
    by (simp add: resolve_fix_def Let_def)
qed

lemma html_files_iff:
  "f \<in> set (html_files U fs) \<longleftrightarrow> f \<in> set (listdir fs) \<and> isfile fs f \<and> is_html U f"
  by (auto simp: html_files_def)


lemma map_of_dict_set: "map_of (dict_set d k v) = (map_of d)(k \<mapsto> v)"
  by (induction d) (auto simp: fun_eq_iff)

lemma map_of_fold_plan:
  "map_of (fold (\<lambda>old m. if f old \<noteq> old then dict_set m old (f old) else m) xs d) k =
     (if k \<in> set xs \<and> f k \<noteq> k then Some (f k) else map_of d k)"
  by (induction xs arbitrary: d) (auto simp: map_of_dict_set)

lemma map_of_plan_fix:
  "map_of (plan_fix U fs xs) k =
     (if k \<in> set xs \<and> resolve_fix U fs k \<noteq> k then Some (resolve_fix U fs k) else None)"
  using map_of_fold_plan [of "resolve_fix U fs" xs "[]" k]
  by (simp add: plan_fix_def Let_def)

lemma map_of_plan_cleanup:
  "map_of (plan_cleanup U xs) k =
     (if k \<in> set xs \<and> slugify_filename U k \<noteq> k then Some (slugify_filename U k) else None)"
  using map_of_fold_plan [of "slugify_filename U" xs "[]" k]
  by (simp add: plan_cleanup_def)

lemma map_of_fold_mapping:
  "map_of (fold (\<lambda>ref m. case h ref of Some new \<Rightarrow> dict_set m ref new | None \<Rightarrow> m) xs d) k =
     (if k \<in> set xs then (case h k of Some new \<Rightarrow> Some new | None \<Rightarrow> map_of d k)
      else map_of d k)"
  by (induction xs arbitrary: d) (auto simp: map_of_dict_set split: option.splits)

lemma map_of_mapping_for_block:
  "map_of (mapping_for_block U fs rename_map body) ref =
     (if ref \<in> set (string_vals body) then
        (case map_of rename_map ref of
           Some new \<Rightarrow> Some new
         | None \<Rightarrow>
             (if path_exists fs ref \<and> slugify_filename U ref \<noteq> ref
              then Some (slugify_filename U ref) else None))
      else None)"
proof -
  let ?h = "\<lambda>ref. case map_of rename_map ref of
      Some new \<Rightarrow> Some new
    | None \<Rightarrow> (if path_exists fs ref \<and> slugify_filename U ref \<noteq> ref
               then Some (slugify_filename U ref) else None)"
  have "(\<lambda>ref m. case map_of rename_map ref of
            Some new \<Rightarrow> dict_set m ref new
          | None \<Rightarrow> (if path_exists fs ref \<and> slugify_filename U ref \<noteq> ref
                     then dict_set m ref (slugify_filename U ref) else m)) =
        (\<lambda>ref m. case ?h ref of Some new \<Rightarrow> dict_set m ref new | None \<Rightarrow> m)"
    by (intro ext) (auto split: option.splits)
  then have "mapping_for_block U fs rename_map body =
      fold (\<lambda>ref m. case ?h ref of Some new \<Rightarrow> dict_set m ref new | None \<Rightarrow> m)
        (remdups (string_vals body)) []"
    by (simp only: mapping_for_block_def)
  then show ?thesis
    by (simp only: map_of_fold_mapping) (simp split: option.splits)
qed

lemma links_log_reports_map:
  "map_of m old = Some new \<Longrightarrow> LinkUpdate old new \<in> set (links_log m)"
  by (rule links_log_reports) (rule map_of_SomeD)

lemma plan_log_reports_map:
  "map_of m old = Some new \<Longrightarrow> Planned old new \<in> set (plan_log m)"
  by (rule plan_log_reports) (rule map_of_SomeD)


section \<open>Dry runs\<close>

lemma main_fix_dry_fs: "out_fs (main_fix U True fs) = fs"
  by (simp add: main_fix_def Let_def split: sum.splits option.splits prod.splits)

lemma main_cleanup_dry_fs: "out_fs (main_cleanup U True fs) = fs"
  by (simp add: main_cleanup_def after_quarantine_def Let_def
      split: sum.splits option.splits prod.splits)

lemma main_fix_dry_log:
  assumes "DASHBOARD_FILE \<in> set (html_files U fs)" and "read_text fs DASHBOARD_FILE = Inr html"
  shows "main_fix U True fs =
     \<lparr>out_fs = fs,
       out_log = WorkingDirectory #
         plan_log (plan_fix U fs (filter (\<lambda>f. f \<noteq> DASHBOARD_FILE) (html_files U fs))) @
         (case find_dpp_urls_block U html of
            None \<Rightarrow> [WarnNoBlock]
          | Some (start, stop, body) \<Rightarrow>
              links_log (mapping_for_block U fs
                (plan_fix U fs (filter (\<lambda>f. f \<noteq> DASHBOARD_FILE) (html_files U fs))) body)) @
         [DryRunNotice],
       out_status = Finished\<rparr>"
  using assms by (simp add: main_fix_def Let_def split: option.splits prod.splits)

lemma main_cleanup_dry_log:
  assumes "DASHBOARD_FILE \<in> set (html_files U fs)" and "read_text fs DASHBOARD_FILE = Inr html"
  shows "main_cleanup U True fs =
     \<lparr>out_fs = fs,
       out_log = WorkingDirectory #
         conflicts_log (conflicts_of fs
           (plan_cleanup U (filter (\<lambda>f. f \<noteq> DASHBOARD_FILE) (html_files U fs)))) @
         plan_log (plan_cleanup U (filter (\<lambda>f. f \<noteq> DASHBOARD_FILE) (html_files U fs))) @
         (case find_dpp_urls_block U html of
            None \<Rightarrow> [WarnNoBlock]
          | Some (start, stop, body) \<Rightarrow>
              links_log (mapping_for_block U fs
                (plan_cleanup U (filter (\<lambda>f. f \<noteq> DASHBOARD_FILE) (html_files U fs))) body)) @
         [DryRunNotice],
       out_status = Finished\<rparr>"
  using assms
  by (simp add: main_cleanup_def after_quarantine_def Let_def split: option.splits prod.splits)

text \<open>
  C6. With \<open>--dry-run\<close> a run changes nothing: the directory after the run is the
  directory before it (no rename, no move, no quarantine directory, no backup, the
  dashboard as it was), in fix_dpp_filenames.py and in dpp_cleanup.py alike. When the
  dashboard is listed and can be read, the run ends normally and its output holds the
  plan and the mapping update: a line \<open>Planned\<close> for every HTML file other than the
  dashboard whose new name differs from its name, the warning when the dashboard has no
  mapping block, and otherwise a line \<open>LinkUpdate\<close> for every value of the block that is
  renamed by the plan, or that exists in the directory and differs from its slug; and
  the notice that nothing was changed.
\<close>

theorem dry_run_performs_no_mutation:
  "out_fs (main_fix U True fs) = fs \<and> out_fs (main_cleanup U True fs) = fs \<and>
   (DASHBOARD_FILE \<in> set (html_files U fs) \<and> read_text fs DASHBOARD_FILE = Inr html \<longrightarrow>
      out_status (main_fix U True fs) = Finished \<and>
      out_status (main_cleanup U True fs) = Finished \<and>
      DryRunNotice \<in> set (out_log (main_fix U True fs)) \<and>
      DryRunNotice \<in> set (out_log (main_cleanup U True fs)) \<and>
      (\<forall>old \<in> set (html_files U fs).
         old \<noteq> DASHBOARD_FILE \<and> resolve_fix U fs old \<noteq> old \<longrightarrow>
           Planned old (resolve_fix U fs old) \<in> set (out_log (main_fix U True fs))) \<and>
      (\<forall>old \<in> set (html_files U fs).
         old \<noteq> DASHBOARD_FILE \<and> slugify_filename U old \<noteq> old \<longrightarrow>
           Planned old (slugify_filename U old) \<in> set (out_log (main_cleanup U True fs))) \<and>
      (find_dpp_urls_block U html = None \<longrightarrow>
         WarnNoBlock \<in> set (out_log (main_fix U True fs)) \<and>
         WarnNoBlock \<in> set (out_log (main_cleanup U True fs))) \<and>
      (\<forall>start stop body. find_dpp_urls_block U html = Some (start, stop, body) \<longrightarrow>
         (\<forall>ref \<in> set (string_vals body).
            (ref \<in> set (html_files U fs) \<and> ref \<noteq> DASHBOARD_FILE \<and> resolve_fix U fs ref \<noteq> ref \<longrightarrow>
               LinkUpdate ref (resolve_fix U fs ref) \<in> set (out_log (main_fix U True fs))) \<and>
            ((ref \<notin> set (html_files U fs) \<or> ref = DASHBOARD_FILE \<or> resolve_fix U fs ref = ref) \<and>
             path_exists fs ref \<and> slugify_filename U ref \<noteq> ref \<longrightarrow>
               LinkUpdate ref (slugify_filename U ref) \<in> set (out_log (main_fix U True fs))) \<and>
            (path_exists fs ref \<and> slugify_filename U ref \<noteq> ref \<longrightarrow>
               LinkUpdate ref (slugify_filename U ref) \<in> set (out_log (main_cleanup U True fs))))))"
proof (intro conjI impI ballI allI)
  show "out_fs (main_fix U True fs) = fs" by (rule main_fix_dry_fs)
  show "out_fs (main_cleanup U True fs) = fs" by (rule main_cleanup_dry_fs)
next
  assume "DASHBOARD_FILE \<in> set (html_files U fs) \<and> read_text fs DASHBOARD_FILE = Inr html"
  then have f: "main_fix U True fs = \<lparr>out_fs = fs,
       out_log = WorkingDirectory #
         plan_log (plan_fix U fs (filter (\<lambda>f. f \<noteq> DASHBOARD_FILE) (html_files U fs))) @
         (case find_dpp_urls_block U html of
            None \<Rightarrow> [WarnNoBlock]
          | Some (start, stop, body) \<Rightarrow>
              links_log (mapping_for_block U fs
                (plan_fix U fs (filter (\<lambda>f. f \<noteq> DASHBOARD_FILE) (html_files U fs))) body)) @
         [DryRunNotice],
       out_status = Finished\<rparr>"
    and c: "main_cleanup U True fs = \<lparr>out_fs = fs,
       out_log = WorkingDirectory #
         conflicts_log (conflicts_of fs
           (plan_cleanup U (filter (\<lambda>f. f \<noteq> DASHBOARD_FILE) (html_files U fs)))) @
         plan_log (plan_cleanup U (filter (\<lambda>f. f \<noteq> DASHBOARD_FILE) (html_files U fs))) @
         (case find_dpp_urls_block U html of
            None \<Rightarrow> [WarnNoBlock]
          | Some (start, stop, body) \<Rightarrow>
              links_log (mapping_for_block U fs
                (plan_cleanup U (filter (\<lambda>f. f \<noteq> DASHBOARD_FILE) (html_files U fs))) body)) @
         [DryRunNotice],
       out_status = Finished\<rparr>"
    by (simp_all add: main_fix_dry_log main_cleanup_dry_log)
  show "out_status (main_fix U True fs) = Finished" by (simp add: f)
  show "out_status (main_cleanup U True fs) = Finished" by (simp add: c)
  show "DryRunNotice \<in> set (out_log (main_fix U True fs))" by (simp add: f)
  show "DryRunNotice \<in> set (out_log (main_cleanup U True fs))" by (simp add: c)
  {
    fix old
    assume o: "old \<in> set (html_files U fs)"
    {
      assume "old \<noteq> DASHBOARD_FILE \<and> resolve_fix U fs old \<noteq> old"
      with o have "map_of (plan_fix U fs (filter (\<lambda>f. f \<noteq> DASHBOARD_FILE) (html_files U fs))) old
          = Some (resolve_fix U fs old)"
        by (simp add: map_of_plan_fix)
      then show "Planned old (resolve_fix U fs old) \<in> set (out_log (main_fix U True fs))"
        by (simp add: f plan_log_reports_map)
    }
    {
      assume "old \<noteq> DASHBOARD_FILE \<and> slugify_filename U old \<noteq> old"
      with o have "map_of (plan_cleanup U (filter (\<lambda>f. f \<noteq> DASHBOARD_FILE) (html_files U fs))) old
          = Some (slugify_filename U old)"
        by (simp add: map_of_plan_cleanup)
      then show "Planned old (slugify_filename U old) \<in> set (out_log (main_cleanup U True fs))"
        by (simp add: c plan_log_reports_map)
    }
  }
  {
    assume "find_dpp_urls_block U html = None"
    then show "WarnNoBlock \<in> set (out_log (main_fix U True fs))"
      and "WarnNoBlock \<in> set (out_log (main_cleanup U True fs))"
      by (simp_all add: f c)
  }
  {
    fix start stop body ref
    assume b: "find_dpp_urls_block U html = Some (start, stop, body)"
      and r: "ref \<in> set (string_vals body)"
    {
      assume "ref \<in> set (html_files U fs) \<and> ref \<noteq> DASHBOARD_FILE \<and> resolve_fix U fs ref \<noteq> ref"
      with r have "map_of (mapping_for_block U fs
          (plan_fix U fs (filter (\<lambda>f. f \<noteq> DASHBOARD_FILE) (html_files U fs))) body) ref
          = Some (resolve_fix U fs ref)"
        by (simp add: map_of_mapping_for_block map_of_plan_fix)
      then show "LinkUpdate ref (resolve_fix U fs ref) \<in> set (out_log (main_fix U True fs))"
        by (simp add: f b links_log_reports_map)
    }
    {
      assume "(ref \<notin> set (html_files U fs) \<or> ref = DASHBOARD_FILE \<or> resolve_fix U fs ref = ref) \<and>
             path_exists fs ref \<and> slugify_filename U ref \<noteq> ref"
      with r have "map_of (mapping_for_block U fs
          (plan_fix U fs (filter (\<lambda>f. f \<noteq> DASHBOARD_FILE) (html_files U fs))) body) ref
          = Some (slugify_filename U ref)"
        by (auto simp: map_of_mapping_for_block map_of_plan_fix)
      then show "LinkUpdate ref (slugify_filename U ref) \<in> set (out_log (main_fix U True fs))"
        by (simp add: f b links_log_reports_map)
    }
    {
      assume "path_exists fs ref \<and> slugify_filename U ref \<noteq> ref"
      with r have "map_of (mapping_for_block U fs
          (plan_cleanup U (filter (\<lambda>f. f \<noteq> DASHBOARD_FILE) (html_files U fs))) body) ref
          = Some (slugify_filename U ref)"
        by (auto simp: map_of_mapping_for_block map_of_plan_cleanup)
      then show "LinkUpdate ref (slugify_filename U ref) \<in> set (out_log (main_cleanup U True fs))"
        by (simp add: c b links_log_reports_map)
    }
  }
qed


text \<open>
  A directory with pending renames: the dashboard, whose mapping block refers to
  \<^verbatim>\<open>Old Name.html\<close>, and that file.
\<close>

definition dashboard_d :: str where
  "dashboard_d = ascii ''const dppUrls = { retail: '' @ 34 # ascii ''Old Name.html'' @ 34 # ascii '' };''"

definition scenario_d :: fs where
  "scenario_d = [(DASHBOARD_FILE, File dashboard_d), (ascii ''Old Name.html'', File (ascii ''A''))]"

lemma html_files_scenario_d:
  "html_files ascii_ucd scenario_d = [DASHBOARD_FILE, ascii ''Old Name.html'']"
  by (simp add: html_files_def scenario_d_def listdir_def isfile_def is_html_def endswith_def
      DASHBOARD_FILE_def ascii_def ascii_ucd_def ascii_lower_def)

lemma read_dashboard_scenario_d: "read_text scenario_d DASHBOARD_FILE = Inr dashboard_d"
  by (rule read_text_ascii) (simp_all add: scenario_d_def dashboard_d_def ascii_def)

lemma block_scenario_d:
  "find_dpp_urls_block ascii_ucd dashboard_d =
     Some (17, 42, ascii '' retail: '' @ 34 # ascii ''Old Name.html'' @ 34 # ascii '' '')"
  by (simp add: find_dpp_urls_block_def dashboard_d_def match_open_def match_close_def
      startswith_def is_space_def ascii_space_def ascii_ucd_def ascii_def)

lemma vals_scenario_d:
  "string_vals (ascii '' retail: '' @ 34 # ascii ''Old Name.html'' @ 34 # ascii '' '') =
     [ascii ''Old Name.html'']"
  by (simp add: ascii_def is_quote_def)

lemma slug_old_name:
  "slugify_filename ascii_ucd (ascii ''Old Name.html'') = ascii ''old-name.html''"
  by (simp add: slug_eval)

lemma resolve_fix_old_name:
  "resolve_fix ascii_ucd scenario_d (ascii ''Old Name.html'') = ascii ''old-name.html''"
  unfolding resolve_fix_def slug_old_name
  by (simp add: path_exists_def scenario_d_def DASHBOARD_FILE_def ascii_def)

theorem dry_run_performs_no_mutation_witness:
  "DASHBOARD_FILE \<in> set (html_files ascii_ucd scenario_d) \<and>
   read_text scenario_d DASHBOARD_FILE = Inr dashboard_d \<and>
   out_fs (main_fix ascii_ucd True scenario_d) = scenario_d \<and>
   out_fs (main_cleanup ascii_ucd True scenario_d) = scenario_d \<and>
   out_status (main_fix ascii_ucd True scenario_d) = Finished \<and>
   out_status (main_cleanup ascii_ucd True scenario_d) = Finished \<and>
   Planned (ascii ''Old Name.html'') (ascii ''old-name.html'')
     \<in> set (out_log (main_fix ascii_ucd True scenario_d)) \<and>
   Planned (ascii ''Old Name.html'') (ascii ''old-name.html'')
     \<in> set (out_log (main_cleanup ascii_ucd True scenario_d)) \<and>
   LinkUpdate (ascii ''Old Name.html'') (ascii ''old-name.html'')
     \<in> set (out_log (main_fix ascii_ucd True scenario_d)) \<and>
   LinkUpdate (ascii ''Old Name.html'') (ascii ''old-name.html'')
     \<in> set (out_log (main_cleanup ascii_ucd True scenario_d))"
proof -
  note t = dry_run_performs_no_mutation [of ascii_ucd scenario_d dashboard_d]
  have d: "DASHBOARD_FILE \<in> set (html_files ascii_ucd scenario_d)"
    by (simp add: html_files_scenario_d)
  have o: "ascii ''Old Name.html'' \<in> set (html_files ascii_ucd scenario_d)"
    by (simp add: html_files_scenario_d)
  have n: "ascii ''Old Name.html'' \<noteq> DASHBOARD_FILE"
    "ascii ''old-name.html'' \<noteq> ascii ''Old Name.html''"
    by (simp_all add: DASHBOARD_FILE_def ascii_eq_iff)
  have e: "path_exists scenario_d (ascii ''Old Name.html'')"
    by (simp add: path_exists_def scenario_d_def DASHBOARD_FILE_def ascii_eq_iff)
  have v: "ascii ''Old Name.html''
      \<in> set (string_vals (ascii '' retail: '' @ 34 # ascii ''Old Name.html'' @ 34 # ascii '' ''))"
    by (simp only: vals_scenario_d) simp
  from t d read_dashboard_scenario_d have c:
    "out_status (main_fix ascii_ucd True scenario_d) = Finished"
    "out_status (main_cleanup ascii_ucd True scenario_d) = Finished"
    "\<forall>old \<in> set (html_files ascii_ucd scenario_d).
       old \<noteq> DASHBOARD_FILE \<and> resolve_fix ascii_ucd scenario_d old \<noteq> old \<longrightarrow>
         Planned old (resolve_fix ascii_ucd scenario_d old)
           \<in> set (out_log (main_fix ascii_ucd True scenario_d))"
    "\<forall>old \<in> set (html_files ascii_ucd scenario_d).
       old \<noteq> DASHBOARD_FILE \<and> slugify_filename ascii_ucd old \<noteq> old \<longrightarrow>
         Planned old (slugify_filename ascii_ucd old)
           \<in> set (out_log (main_cleanup ascii_ucd True scenario_d))"
    "\<forall>ref \<in> set (string_vals (ascii '' retail: '' @ 34 # ascii ''Old Name.html'' @ 34 # ascii '' '')).
       (ref \<in> set (html_files ascii_ucd scenario_d) \<and> ref \<noteq> DASHBOARD_FILE
          \<and> resolve_fix ascii_ucd scenario_d ref \<noteq> ref \<longrightarrow>
          LinkUpdate ref (resolve_fix ascii_ucd scenario_d ref)
            \<in> set (out_log (main_fix ascii_ucd True scenario_d))) \<and>
       (path_exists scenario_d ref \<and> slugify_filename ascii_ucd ref \<noteq> ref \<longrightarrow>
          LinkUpdate ref (slugify_filename ascii_ucd ref)
            \<in> set (out_log (main_cleanup ascii_ucd True scenario_d)))"
    using block_scenario_d by blast+
  from c(3) o n have p1: "Planned (ascii ''Old Name.html'') (ascii ''old-name.html'')
     \<in> set (out_log (main_fix ascii_ucd True scenario_d))"
    using resolve_fix_old_name by fastforce
  from c(4) o n have p2: "Planned (ascii ''Old Name.html'') (ascii ''old-name.html'')
     \<in> set (out_log (main_cleanup ascii_ucd True scenario_d))"
    using slug_old_name by fastforce
  from c(5) v o n e have l1: "LinkUpdate (ascii ''Old Name.html'') (ascii ''old-name.html'')
     \<in> set (out_log (main_fix ascii_ucd True scenario_d))"
    using resolve_fix_old_name by fastforce
  from c(5) v o n e have l2: "LinkUpdate (ascii ''Old Name.html'') (ascii ''old-name.html'')
     \<in> set (out_log (main_cleanup ascii_ucd True scenario_d))"
    using slug_old_name by fastforce
  from t have "out_fs (main_fix ascii_ucd True scenario_d) = scenario_d"
    and "out_fs (main_cleanup ascii_ucd True scenario_d) = scenario_d"
    by blast+
  with d read_dashboard_scenario_d c(1,2) p1 p2 l1 l2 show ?thesis
    by blast
qed


section \<open>An apostrophe in a file name\<close>

text \<open>
  A directory with the file \<^verbatim>\<open>it's.html\<close> and a dashboard whose mapping block refers to it
  between double quotes.
\<close>

definition its_html :: str where
  "its_html = ascii ''it'' @ 39 # ascii ''s.html''"

definition dashboard_q :: str where
  "dashboard_q = ascii ''const dppUrls = { retail: '' @ 34 # its_html @ 34 # ascii '' };''"

definition scenario_q :: fs where
  "scenario_q = [(DASHBOARD_FILE, File dashboard_q), (its_html, File (ascii ''A''))]"

lemma html_files_scenario_q: "html_files ascii_ucd scenario_q = [DASHBOARD_FILE, its_html]"
  by (simp add: html_files_def scenario_q_def listdir_def isfile_def is_html_def endswith_def
      DASHBOARD_FILE_def its_html_def ascii_def ascii_ucd_def ascii_lower_def)

lemma targets_scenario_q:
  "filter (\<lambda>f. f \<noteq> DASHBOARD_FILE) (html_files ascii_ucd scenario_q) = [its_html]"
  unfolding html_files_scenario_q by (simp add: DASHBOARD_FILE_def its_html_def ascii_def)

lemma slug_its_html: "slugify_filename ascii_ucd its_html = ascii ''its.html''"
  unfolding its_html_def by (simp add: slug_eval)

lemma plan_fix_scenario_q:
  "plan_fix ascii_ucd scenario_q [its_html] = [(its_html, ascii ''its.html'')]"
proof -
  have "resolve_fix ascii_ucd scenario_q its_html = ascii ''its.html''"
    unfolding resolve_fix_def slug_its_html
    by (simp add: path_exists_def scenario_q_def DASHBOARD_FILE_def its_html_def ascii_def)
  moreover have "ascii ''its.html'' \<noteq> its_html"
    by (simp add: its_html_def ascii_def)
  ultimately show ?thesis
    by (simp add: plan_fix_def)
qed

lemma read_dashboard_scenario_q: "read_text scenario_q DASHBOARD_FILE = Inr dashboard_q"
  by (rule read_text_ascii)
    (simp_all add: scenario_q_def dashboard_q_def its_html_def ascii_def)

lemma block_scenario_q:
  "find_dpp_urls_block ascii_ucd dashboard_q =
     Some (17, 38, ascii '' retail: '' @ 34 # its_html @ 34 # ascii '' '')"
  by (simp add: find_dpp_urls_block_def dashboard_q_def its_html_def match_open_def
      match_close_def startswith_def is_space_def ascii_space_def ascii_ucd_def ascii_def)

lemma vals_scenario_q:
  "string_vals (ascii '' retail: '' @ 34 # its_html @ 34 # ascii '' '') = []"
  by (simp add: its_html_def ascii_def is_quote_def)

lemma replace_scenario_q:
  "replace_urls_in_block (ascii '' retail: '' @ 34 # its_html @ 34 # ascii '' '') m =
     ascii '' retail: '' @ 34 # its_html @ 34 # ascii '' ''"
  by (simp add: replace_urls_in_block_def its_html_def ascii_def is_quote_def)

lemma splice_scenario_q:
  "take 17 dashboard_q @ (ascii '' retail: '' @ 34 # its_html @ 34 # ascii '' '') @
     drop 38 dashboard_q = dashboard_q"
  by (simp add: dashboard_q_def its_html_def ascii_def)

lemma rename_scenario_q:
  "rename_loop_fix scenario_q log [(its_html, ascii ''its.html'')] =
     \<lparr>out_fs = [(ascii ''its.html'', File (ascii ''A'')), (DASHBOARD_FILE, File dashboard_q)],
       out_log = log @ [Renaming its_html (ascii ''its.html'')],
       out_status = Finished\<rparr>"
  by (simp add: os_rename_def scenario_q_def parent_ok_def isdir_def fs_put_def fs_remove_def
      DASHBOARD_FILE_def its_html_def ascii_def)

lemma encode_dashboard_q: "utf8_encode dashboard_q = Some dashboard_q"
  by (rule utf8_encode_ascii) (simp add: dashboard_q_def its_html_def ascii_def)

lemma dashboard_names:
  "47 \<notin> set DASHBOARD_FILE" "47 \<notin> set BACKUP_SUFFIX"
  "DASHBOARD_FILE @ BACKUP_SUFFIX \<noteq> DASHBOARD_FILE"
  "DASHBOARD_FILE \<noteq> DASHBOARD_FILE @ BACKUP_SUFFIX"
  by (simp_all add: DASHBOARD_FILE_def BACKUP_SUFFIX_def ascii_def)

lemma update_dashboard_backup:
  assumes e: "\<not> path_exists fs (DASHBOARD_FILE @ BACKUP_SUFFIX)"
    and d: "map_of fs DASHBOARD_FILE = Some (File c)"
    and u: "utf8_encode (take start html @ replace_urls_in_block body mapping @ drop stop html)
              = Some bs"
  shows "update_dashboard fs log html start stop body mapping =
     \<lparr>out_fs = fs_put (fs_put fs (DASHBOARD_FILE @ BACKUP_SUFFIX) (File c)) DASHBOARD_FILE (File bs),
       out_log = log @ [BackupCreated, DashboardUpdated, Done],
       out_status = Finished\<rparr>"
proof -
  from e have nd: "\<not> isdir fs (DASHBOARD_FILE @ BACKUP_SUFFIX)"
    by (auto simp: path_exists_def isdir_def split: option.splits)
  have c: "copy2 fs DASHBOARD_FILE (DASHBOARD_FILE @ BACKUP_SUFFIX) =
      Inr (fs_put fs (DASHBOARD_FILE @ BACKUP_SUFFIX) (File c))"
    using d nd by (simp add: copy2_def parent_ok_def dashboard_names Let_def)
  have "\<not> isdir (fs_put fs (DASHBOARD_FILE @ BACKUP_SUFFIX) (File c)) DASHBOARD_FILE"
    using d by (simp add: isdir_def map_of_fs_put dashboard_names)
  then have w: "write_text (fs_put fs (DASHBOARD_FILE @ BACKUP_SUFFIX) (File c)) DASHBOARD_FILE
      (take start html @ replace_urls_in_block body mapping @ drop stop html) =
      (fs_put (fs_put fs (DASHBOARD_FILE @ BACKUP_SUFFIX) (File c)) DASHBOARD_FILE (File bs), None)"
    using u by (simp add: write_text_def parent_ok_def dashboard_names)
  show ?thesis
    using e by (simp add: update_dashboard_def Let_def c w)
qed

lemma update_scenario_q:
  "update_dashboard [(ascii ''its.html'', File (ascii ''A'')), (DASHBOARD_FILE, File dashboard_q)]
     log dashboard_q 17 38 (ascii '' retail: '' @ 34 # its_html @ 34 # ascii '' '') [] =
     \<lparr>out_fs = [(DASHBOARD_FILE, File dashboard_q),
                (DASHBOARD_FILE @ BACKUP_SUFFIX, File dashboard_q),
                (ascii ''its.html'', File (ascii ''A''))],
       out_log = log @ [BackupCreated, DashboardUpdated, Done],
       out_status = Finished\<rparr>"
proof -
  have e: "\<not> path_exists [(ascii ''its.html'', File (ascii ''A'')), (DASHBOARD_FILE, File dashboard_q)]
      (DASHBOARD_FILE @ BACKUP_SUFFIX)"
    by (simp add: path_exists_def DASHBOARD_FILE_def BACKUP_SUFFIX_def ascii_def)
  have d: "map_of [(ascii ''its.html'', File (ascii ''A'')), (DASHBOARD_FILE, File dashboard_q)]
      DASHBOARD_FILE = Some (File dashboard_q)"
    by (simp add: DASHBOARD_FILE_def ascii_def)
  have u: "utf8_encode (take 17 dashboard_q @
      replace_urls_in_block (ascii '' retail: '' @ 34 # its_html @ 34 # ascii '' '') [] @
      drop 38 dashboard_q) = Some dashboard_q"
    by (simp only: replace_scenario_q splice_scenario_q encode_dashboard_q)
  have "fs_put (fs_put [(ascii ''its.html'', File (ascii ''A'')), (DASHBOARD_FILE, File dashboard_q)]
      (DASHBOARD_FILE @ BACKUP_SUFFIX) (File dashboard_q)) DASHBOARD_FILE (File dashboard_q) =
      [(DASHBOARD_FILE, File dashboard_q),
       (DASHBOARD_FILE @ BACKUP_SUFFIX, File dashboard_q),
       (ascii ''its.html'', File (ascii ''A''))]"
    by (simp add: fs_put_def fs_remove_def DASHBOARD_FILE_def BACKUP_SUFFIX_def ascii_def)
  with update_dashboard_backup [OF e d u] show ?thesis
    by simp
qed

lemma main_fix_scenario_q:
  "main_fix ascii_ucd False scenario_q =
     \<lparr>out_fs = [(DASHBOARD_FILE, File dashboard_q),
                (DASHBOARD_FILE @ BACKUP_SUFFIX, File dashboard_q),
                (ascii ''its.html'', File (ascii ''A''))],
       out_log = (WorkingDirectory # plan_log [(its_html, ascii ''its.html'')] @ links_log []) @
         [Renaming its_html (ascii ''its.html'')] @ [BackupCreated, DashboardUpdated, Done],
       out_status = Finished\<rparr>"
proof -
  have m: "mapping_for_block ascii_ucd scenario_q [(its_html, ascii ''its.html'')]
      (ascii '' retail: '' @ 34 # its_html @ 34 # ascii '' '') = []"
    by (simp add: mapping_for_block_def vals_scenario_q)
  have d: "DASHBOARD_FILE \<in> set (html_files ascii_ucd scenario_q)"
    by (simp add: html_files_scenario_q)
  show ?thesis
    unfolding main_fix_def targets_scenario_q plan_fix_scenario_q
    by (simp add: d read_dashboard_scenario_q block_scenario_q m rename_scenario_q
        update_scenario_q Let_def del: rename_loop_fix.simps)
qed

text \<open>
  C5 on that directory. The literal \<^verbatim>\<open>"it's.html"\<close> is double-quoted and its content is a key
  of the plan; the pattern admits no quote of either kind inside a value, so the scan
  never reads it as a literal. fix_dpp_filenames.py renames the file to
  \<^verbatim>\<open>its.html\<close>, reports that no link needs an update, and writes the dashboard back as it
  was: the link is stale. The rewriter alone, given the literal and the plan, returns the
  literal unchanged.
\<close>

theorem stale_link_after_rename:
  "out_status (main_fix ascii_ucd False scenario_q) = Finished \<and>
   out_fs (main_fix ascii_ucd False scenario_q) =
     [(DASHBOARD_FILE, File dashboard_q),
      (DASHBOARD_FILE @ BACKUP_SUFFIX, File dashboard_q),
      (ascii ''its.html'', File (ascii ''A''))] \<and>
   NoLinkUpdates \<in> set (out_log (main_fix ascii_ucd False scenario_q)) \<and>
   replace_urls_in_block (34 # its_html @ [34]) [(its_html, ascii ''its.html'')] =
     34 # its_html @ [34]"
proof -
  have f: "replace_urls_in_block (34 # its_html @ [34]) [(its_html, ascii ''its.html'')] =
     34 # its_html @ [34]"
    by (simp add: replace_urls_in_block_def its_html_def ascii_def is_quote_def)
  show ?thesis
    unfolding main_fix_scenario_q by (simp add: f links_log_def)
qed


section \<open>The rename loops\<close>


lemma rename_loop_fix_runs:
  assumes "distinct (map fst plan)"
    and "\<forall>(k, t) \<in> set plan. isfile fs k \<and> \<not> isdir fs t \<and> 47 \<notin> set t \<and> t \<notin> fst ` set plan"
  shows "out_status (rename_loop_fix fs log plan) = Finished \<and>
         out_log (rename_loop_fix fs log plan) = log @ map (\<lambda>(k, t). Renaming k t) plan \<and>
         (\<forall>q. q \<notin> fst ` set plan \<and> q \<notin> snd ` set plan \<longrightarrow>
            map_of (out_fs (rename_loop_fix fs log plan)) q = map_of fs q) \<and>
         (\<forall>k \<in> fst ` set plan. map_of (out_fs (rename_loop_fix fs log plan)) k = None) \<and>
         (\<forall>t \<in> snd ` set plan. isfile (out_fs (rename_loop_fix fs log plan)) t)"
  using assms
proof (induction plan arbitrary: fs log)
  case Nil
  show ?case by simp
next
  case (Cons e plan)
  obtain k t where e: "e = (k, t)" by (cases e)
  from Cons.prems(2) have kf: "isfile fs k" and td: "\<not> isdir fs t" and ts: "47 \<notin> set t"
    and tk: "t \<noteq> k" and tn: "t \<notin> fst ` set plan"
    by (auto simp: e)
  from Cons.prems(1) have kn: "k \<notin> fst ` set plan" and dp: "distinct (map fst plan)"
    by (simp_all add: e)
  from kf obtain c where c: "map_of fs k = Some (File c)"
    by (auto simp: isfile_def split: option.splits node.splits)
  define fs' where "fs' = fs_put (fs_remove fs k) t (File c)"
  have r: "os_rename fs k t = Inr fs'"
    unfolding fs'_def using c ts td by (rule os_rename_file)
  have m: "\<And>q. map_of fs' q = (if q = t then Some (File c) else if q = k then None else map_of fs q)"
    unfolding fs'_def by (rule map_of_renamed)
  have inv: "\<forall>(k', t') \<in> set plan.
      isfile fs' k' \<and> \<not> isdir fs' t' \<and> 47 \<notin> set t' \<and> t' \<notin> fst ` set plan"
  proof (intro ballI, clarify)
    fix k' t' assume p: "(k', t') \<in> set plan"
    with Cons.prems(2) have h: "isfile fs k'" "\<not> isdir fs t'" "47 \<notin> set t'"
      "t' \<noteq> k" "t' \<notin> fst ` set plan"
      by (auto simp: e)
    from p have "k' \<in> fst ` set plan"
      by (auto intro: rev_image_eqI)
    with kn tn have "k' \<noteq> k" "k' \<noteq> t"
      by auto
    with h(1) have "isfile fs' k'"
      by (simp add: isfile_def m)
    moreover from h(2) have "\<not> isdir fs' t'"
      by (simp add: isdir_def m)
    ultimately show "isfile fs' k' \<and> \<not> isdir fs' t' \<and> 47 \<notin> set t' \<and> t' \<notin> fst ` set plan"
      using h by simp
  qed
  let ?r = "rename_loop_fix fs' (log @ [Renaming k t]) plan"
  note ih = Cons.IH [OF dp inv, of "log @ [Renaming k t]"]
  from ih have s: "out_status ?r = Finished"
    by (elim conjE)
  from ih have l: "out_log ?r = (log @ [Renaming k t]) @ map (\<lambda>(k, t). Renaming k t) plan"
    by (elim conjE)
  from ih have f0: "\<forall>q. q \<notin> fst ` set plan \<and> q \<notin> snd ` set plan \<longrightarrow>
      map_of (out_fs ?r) q = map_of fs' q"
    by (elim conjE)
  from ih have g0: "\<forall>k' \<in> fst ` set plan. map_of (out_fs ?r) k' = None"
    by (elim conjE)
  from ih have i0: "\<forall>t' \<in> snd ` set plan. isfile (out_fs ?r) t'"
    by (elim conjE)
  have f: "\<And>q. q \<notin> fst ` set plan \<Longrightarrow> q \<notin> snd ` set plan \<Longrightarrow> map_of (out_fs ?r) q = map_of fs' q"
    using f0 by simp
  have g: "\<And>k'. k' \<in> fst ` set plan \<Longrightarrow> map_of (out_fs ?r) k' = None"
    using g0 by (rule bspec)
  have i: "\<And>t'. t' \<in> snd ` set plan \<Longrightarrow> isfile (out_fs ?r) t'"
    using i0 by (rule bspec)
  have eq: "rename_loop_fix fs log (e # plan) = ?r"
    by (simp add: e r)
  have tnk: "\<And>t'. t' \<in> snd ` set plan \<Longrightarrow> t' \<noteq> k"
    using Cons.prems(2) by (auto simp: e)
  have 1: "out_status ?r = Finished" by (rule s)
  have 2: "out_log ?r = log @ map (\<lambda>(k, t). Renaming k t) (e # plan)"
    by (simp add: l e)
  have 3: "\<forall>q. q \<notin> fst ` set (e # plan) \<and> q \<notin> snd ` set (e # plan) \<longrightarrow>
      map_of (out_fs ?r) q = map_of fs q"
    by (auto simp: e f m)
  have 4: "\<forall>k' \<in> fst ` set (e # plan). map_of (out_fs ?r) k' = None"
  proof
    fix k' assume "k' \<in> fst ` set (e # plan)"
    then consider "k' = k" | "k' \<in> fst ` set plan"
      by (auto simp: e)
    then show "map_of (out_fs ?r) k' = None"
    proof cases
      case 1
      have "k \<notin> snd ` set plan"
        using tnk by blast
      with kn have "map_of (out_fs ?r) k = map_of fs' k"
        by (simp add: f)
      with tk 1 show ?thesis
        by (simp add: m)
    next
      case 2
      then show ?thesis by (rule g)
    qed
  qed
  have 5: "\<forall>t' \<in> snd ` set (e # plan). isfile (out_fs ?r) t'"
  proof
    fix t' assume "t' \<in> snd ` set (e # plan)"
    then consider "t' \<in> snd ` set plan" | "t' = t" "t \<notin> snd ` set plan"
      by (auto simp: e)
    then show "isfile (out_fs ?r) t'"
    proof cases
      case 1
      then show ?thesis by (rule i)
    next
      case 2
      with tn have "map_of (out_fs ?r) t = map_of fs' t"
        by (simp add: f)
      with 2 show ?thesis
        by (simp add: isfile_def m)
    qed
  qed
  from 1 2 3 4 5 show ?case
    unfolding eq by blast
qed

lemma rename_loop_fix_frame:
  assumes "\<forall>k \<in> fst ` set plan. \<not> isdir fs k"
    and "q \<notin> fst ` set plan" and "q \<notin> snd ` set plan"
  shows "map_of (out_fs (rename_loop_fix fs log plan)) q = map_of fs q"
  using assms
proof (induction plan arbitrary: fs log)
  case Nil
  show ?case by simp
next
  case (Cons e plan)
  obtain k t where e: "e = (k, t)" by (cases e)
  from Cons.prems have qk: "q \<noteq> k" and qt: "q \<noteq> t"
    and q1: "q \<notin> fst ` set plan" and q2: "q \<notin> snd ` set plan"
    and kd: "\<not> isdir fs k" and rd: "\<forall>k' \<in> fst ` set plan. \<not> isdir fs k'"
    by (auto simp: e)
  show ?case
  proof (cases "os_rename fs k t")
    case (Inl err)
    then show ?thesis by (simp add: e)
  next
    case (Inr fs')
    with kd obtain c where c: "map_of fs k = Some (File c)"
      and fs': "fs' = fs_put (fs_remove fs k) t (File c)"
      by (auto simp: os_rename_def isdir_def split: option.splits node.splits if_splits)
    have m: "\<And>p. map_of fs' p = (if p = t then Some (File c) else if p = k then None else map_of fs p)"
      unfolding fs' by (rule map_of_renamed)
    from rd have "\<forall>k' \<in> fst ` set plan. \<not> isdir fs' k'"
      by (auto simp: isdir_def m)
    from Cons.IH [OF this q1 q2, of "log @ [Renaming k t]"] qk qt Inr show ?thesis
      by (simp add: e m)
  qed
qed

lemma rename_loop_cleanup_frame:
  assumes "\<forall>k \<in> fst ` set plan. \<not> isdir fs k"
    and "q \<notin> fst ` set plan" and "path_exists fs q"
  shows "map_of (out_fs (rename_loop_cleanup fs log plan)) q = map_of fs q"
  using assms
proof (induction plan arbitrary: fs log)
  case Nil
  show ?case by simp
next
  case (Cons e plan)
  obtain k t where e: "e = (k, t)" by (cases e)
  from Cons.prems have qk: "q \<noteq> k" and q1: "q \<notin> fst ` set plan"
    and kd: "\<not> isdir fs k" and rd: "\<forall>k' \<in> fst ` set plan. \<not> isdir fs k'"
    and qe: "path_exists fs q"
    by (auto simp: e)
  show ?case
  proof (cases "k = t")
    case True
    with Cons.IH [OF rd q1 qe] show ?thesis
      by (simp add: e)
  next
    case False
    let ?t = "resolve_cleanup fs t"
    have free: "\<not> path_exists fs ?t"
      by (rule resolve_cleanup_free)
    with qe have qt: "q \<noteq> ?t"
      by auto
    show ?thesis
    proof (cases "os_rename fs k ?t")
      case (Inl err)
      with False show ?thesis by (simp add: e Let_def)
    next
      case (Inr fs')
      with kd obtain c where c: "map_of fs k = Some (File c)"
        and fs': "fs' = fs_put (fs_remove fs k) ?t (File c)"
        by (auto simp: os_rename_def isdir_def split: option.splits node.splits if_splits)
      have m: "\<And>p. map_of fs' p =
          (if p = ?t then Some (File c) else if p = k then None else map_of fs p)"
        unfolding fs' by (rule map_of_renamed)
      from rd have d': "\<forall>k' \<in> fst ` set plan. \<not> isdir fs' k'"
        by (auto simp: isdir_def m)
      from qe qk qt have qe': "path_exists fs' q"
        by (simp add: path_exists_def m)
      from Cons.IH [OF d' q1 qe'] qk qt Inr False show ?thesis
        by (simp add: e m Let_def)
    qed
  qed
qed


section \<open>What a committing run renames\<close>

lemma plan_fix_ready:
  assumes U: "ucd_sound U"
  shows "\<forall>(k, t) \<in> set (plan_fix U fs (filter (\<lambda>f. f \<noteq> DASHBOARD_FILE) (html_files U fs))).
           isfile fs k \<and> \<not> path_exists fs t \<and> \<not> isdir fs t \<and> 47 \<notin> set t \<and>
           t \<notin> fst ` set (plan_fix U fs (filter (\<lambda>f. f \<noteq> DASHBOARD_FILE) (html_files U fs)))"
proof (intro ballI, clarify)
  let ?plan = "plan_fix U fs (filter (\<lambda>f. f \<noteq> DASHBOARD_FILE) (html_files U fs))"
  fix k t assume p: "(k, t) \<in> set ?plan"
  from plan_fix_entries [OF p] have k: "k \<in> set (html_files U fs)"
    and t: "t = resolve_fix U fs k" and n: "t \<noteq> k"
    by auto
  from k have kf: "isfile fs k"
    by (rule html_files_isfile)
  from t n have free: "\<not> path_exists fs t"
    using resolve_fix_free [of U fs k] by simp
  then have nd: "\<not> isdir fs t"
    by (auto simp: path_exists_def isdir_def split: option.splits)
  have ns: "47 \<notin> set t"
    unfolding t using U by (rule resolve_fix_no_slash)
  have "t \<notin> fst ` set ?plan"
  proof
    assume "t \<in> fst ` set ?plan"
    then obtain t' where "(t, t') \<in> set ?plan"
      by auto
    from plan_fix_entries [OF this] have "t \<in> set (html_files U fs)"
      by simp
    then have "isfile fs t"
      by (rule html_files_isfile)
    with free show False
      by (auto simp: path_exists_def isfile_def split: option.splits)
  qed
  with kf free nd ns
  show "isfile fs k \<and> \<not> path_exists fs t \<and> \<not> isdir fs t \<and> 47 \<notin> set t \<and> t \<notin> fst ` set ?plan"
    by simp
qed

lemma plan_fix_keys:
  "fst ` set (plan_fix U fs (filter (\<lambda>f. f \<noteq> DASHBOARD_FILE) (html_files U fs)))
     \<subseteq> {f \<in> set (listdir fs). isfile fs f \<and> is_html U f \<and> f \<noteq> DASHBOARD_FILE}"
  by (auto dest!: plan_fix_entries simp: html_files_iff)

lemma plan_cleanup_keys:
  "fst ` set (plan_cleanup U (filter (\<lambda>f. f \<noteq> DASHBOARD_FILE) (html_files U fs)))
     \<subseteq> {f \<in> set (listdir fs). isfile fs f \<and> is_html U f \<and> f \<noteq> DASHBOARD_FILE}"
  by (auto dest!: plan_cleanup_entries simp: html_files_iff)

lemma plan_log_msgs:
  "set (plan_log m) \<subseteq> {NothingToRename, PlannedRenames} \<union> (\<lambda>(k, t). Planned k t) ` set m"
  by (auto simp: plan_log_def)


lemma str_contains_drop: "startswith (drop i s) k \<Longrightarrow> str_contains s k"
proof (induction s arbitrary: i)
  case Nil
  then show ?case by (simp add: startswith_def)
next
  case (Cons c cs)
  show ?case
  proof (cases i)
    case 0
    with Cons.prems show ?thesis by simp
  next
    case (Suc n)
    with Cons.prems have "startswith (drop n cs) k" by simp
    then have "str_contains cs k" by (rule Cons.IH)
    then show ?thesis by simp
  qed
qed

lemma match_open_contains:
  assumes "match_open U t = Some r"
  shows "str_contains t (ascii ''dppUrls'')"
proof -
  from assms have "startswith (dropWhile (is_space U) (drop 5 t)) (ascii ''dppUrls'')"
    by (auto simp: match_open_def Let_def split: if_splits)
  then have "startswith (drop (length (takeWhile (is_space U) (drop 5 t)) + 5) t) (ascii ''dppUrls'')"
    by (simp add: dropWhile_eq_drop)
  then show ?thesis by (rule str_contains_drop)
qed

lemma search_block_contains:
  "search_block U pos t = Some x \<Longrightarrow> str_contains t (ascii ''dppUrls'')"
proof (induction t arbitrary: pos)
  case Nil
  then show ?case by simp
next
  case (Cons c cs)
  show ?case
  proof (cases "match_open U (c # cs)")
    case None
    with Cons.prems have "search_block U (Suc pos) cs = Some x" by simp
    then have "str_contains cs (ascii ''dppUrls'')" by (rule Cons.IH)
    then show ?thesis by simp
  next
    case (Some r)
    then show ?thesis by (rule match_open_contains)
  qed
qed

lemma missing_block_run:
  assumes U: "ucd_sound U"
    and d: "DASHBOARD_FILE \<in> set (html_files U fs)"
    and r: "read_text fs DASHBOARD_FILE = Inr html"
    and b: "find_dpp_urls_block U html = None"
  shows "out_status (main_fix U False fs) = Finished \<and>
     WarnNoBlock \<in> set (out_log (main_fix U False fs)) \<and>
     BackupCreated \<notin> set (out_log (main_fix U False fs)) \<and>
     DashboardUpdated \<notin> set (out_log (main_fix U False fs)) \<and>
     map_of (out_fs (main_fix U False fs)) DASHBOARD_FILE = map_of fs DASHBOARD_FILE \<and>
     (\<forall>old \<in> set (html_files U fs).
        old \<noteq> DASHBOARD_FILE \<and> resolve_fix U fs old \<noteq> old \<longrightarrow>
          Renaming old (resolve_fix U fs old) \<in> set (out_log (main_fix U False fs)) \<and>
          \<not> path_exists (out_fs (main_fix U False fs)) old \<and>
          isfile (out_fs (main_fix U False fs)) (resolve_fix U fs old))"
proof -
  let ?plan = "plan_fix U fs (filter (\<lambda>f. f \<noteq> DASHBOARD_FILE) (html_files U fs))"
  let ?log = "WorkingDirectory # plan_log ?plan @ [WarnNoBlock]"
  let ?r = "rename_loop_fix fs ?log ?plan"
  have ready: "\<forall>(k, t) \<in> set ?plan.
      isfile fs k \<and> \<not> isdir fs t \<and> 47 \<notin> set t \<and> t \<notin> fst ` set ?plan"
    using plan_fix_ready [OF U, of fs] by fast
  note runs = rename_loop_fix_runs [OF plan_fix_distinct ready, of ?log]
  from runs have s: "out_status ?r = Finished"
    by (elim conjE)
  from runs have l: "out_log ?r = ?log @ map (\<lambda>(k, t). Renaming k t) ?plan"
    by (elim conjE)
  from runs have f: "\<forall>q. q \<notin> fst ` set ?plan \<and> q \<notin> snd ` set ?plan \<longrightarrow>
      map_of (out_fs ?r) q = map_of fs q"
    by (elim conjE)
  from runs have g: "\<forall>k \<in> fst ` set ?plan. map_of (out_fs ?r) k = None"
    by (elim conjE)
  from runs have i: "\<forall>t \<in> snd ` set ?plan. isfile (out_fs ?r) t"
    by (elim conjE)
  have m: "main_fix U False fs = ?r\<lparr>out_log := out_log ?r @ [Done]\<rparr>"
    using d r b s by (simp add: main_fix_def Let_def)
  have fs_eq: "out_fs (main_fix U False fs) = out_fs ?r"
    by (simp add: m)
  have log_eq: "out_log (main_fix U False fs) =
      ?log @ map (\<lambda>(k, t). Renaming k t) ?plan @ [Done]"
    by (simp add: m l)
  have 1: "out_status (main_fix U False fs) = Finished"
    by (simp add: m s)
  have 2: "WarnNoBlock \<in> set (out_log (main_fix U False fs))"
    by (simp add: log_eq)
  have 3: "BackupCreated \<notin> set (out_log (main_fix U False fs))"
    using plan_log_msgs [of ?plan] by (auto simp: log_eq)
  have 4: "DashboardUpdated \<notin> set (out_log (main_fix U False fs))"
    using plan_log_msgs [of ?plan] by (auto simp: log_eq)
  have 5: "map_of (out_fs (main_fix U False fs)) DASHBOARD_FILE = map_of fs DASHBOARD_FILE"
  proof -
    have "DASHBOARD_FILE \<notin> fst ` set ?plan"
      using plan_fix_keys [of U fs] by auto
    moreover have "DASHBOARD_FILE \<notin> snd ` set ?plan"
    proof
      assume "DASHBOARD_FILE \<in> snd ` set ?plan"
      then obtain k where "(k, DASHBOARD_FILE) \<in> set ?plan"
        by auto
      with plan_fix_ready [OF U, of fs] have "\<not> path_exists fs DASHBOARD_FILE"
        by fast
      moreover from d have "isfile fs DASHBOARD_FILE"
        by (rule html_files_isfile)
      ultimately show False
        by (auto simp: path_exists_def isfile_def split: option.splits)
    qed
    ultimately show ?thesis
      using f by (simp add: fs_eq)
  qed
  have 6: "\<forall>old \<in> set (html_files U fs).
        old \<noteq> DASHBOARD_FILE \<and> resolve_fix U fs old \<noteq> old \<longrightarrow>
          Renaming old (resolve_fix U fs old) \<in> set (out_log (main_fix U False fs)) \<and>
          \<not> path_exists (out_fs (main_fix U False fs)) old \<and>
          isfile (out_fs (main_fix U False fs)) (resolve_fix U fs old)"
  proof (intro ballI impI)
    fix old
    assume o: "old \<in> set (html_files U fs)"
      and n: "old \<noteq> DASHBOARD_FILE \<and> resolve_fix U fs old \<noteq> old"
    then have "map_of ?plan old = Some (resolve_fix U fs old)"
      by (simp add: map_of_plan_fix)
    then have p: "(old, resolve_fix U fs old) \<in> set ?plan"
      by (rule map_of_SomeD)
    then have a: "Renaming old (resolve_fix U fs old) \<in> set (out_log (main_fix U False fs))"
      by (auto simp: log_eq intro: rev_image_eqI)
    from p have pk: "old \<in> fst ` set ?plan" and pt: "resolve_fix U fs old \<in> snd ` set ?plan"
      by (auto intro: rev_image_eqI)
    from g pk have "map_of (out_fs ?r) old = None"
      by (rule bspec)
    moreover from i pt have "isfile (out_fs ?r) (resolve_fix U fs old)"
      by (rule bspec)
    moreover note a
    ultimately
    show "Renaming old (resolve_fix U fs old) \<in> set (out_log (main_fix U False fs)) \<and>
          \<not> path_exists (out_fs (main_fix U False fs)) old \<and>
          isfile (out_fs (main_fix U False fs)) (resolve_fix U fs old)"
      by (simp add: fs_eq path_exists_def)
  qed
  from 1 2 3 4 5 6 show ?thesis
    by blast
qed

text \<open>
  C7. A dashboard in which the text \<^verbatim>\<open>dppUrls\<close> does not occur has no mapping block: the
  locator returns its not-found value. Whenever the locator returns that value, the run of
  fix_dpp_filenames.py without \<open>--dry-run\<close> ends normally: it prints the warning, creates
  no backup and does not write the dashboard, whose entry is as before, and it performs
  every planned rename: for every HTML file other than the dashboard whose new name
  differs from its name, the rename is reported, the old name is gone and the new name is
  a file.
\<close>

theorem missing_block_is_recoverable:
  assumes U: "ucd_sound U"
    and d: "DASHBOARD_FILE \<in> set (html_files U fs)"
    and r: "read_text fs DASHBOARD_FILE = Inr html"
  shows "(\<not> str_contains html (ascii ''dppUrls'') \<longrightarrow> find_dpp_urls_block U html = None) \<and>
     (find_dpp_urls_block U html = None \<longrightarrow>
        out_status (main_fix U False fs) = Finished \<and>
        WarnNoBlock \<in> set (out_log (main_fix U False fs)) \<and>
        BackupCreated \<notin> set (out_log (main_fix U False fs)) \<and>
        DashboardUpdated \<notin> set (out_log (main_fix U False fs)) \<and>
        map_of (out_fs (main_fix U False fs)) DASHBOARD_FILE = map_of fs DASHBOARD_FILE \<and>
        (\<forall>old \<in> set (html_files U fs).
           old \<noteq> DASHBOARD_FILE \<and> resolve_fix U fs old \<noteq> old \<longrightarrow>
             Renaming old (resolve_fix U fs old) \<in> set (out_log (main_fix U False fs)) \<and>
             \<not> path_exists (out_fs (main_fix U False fs)) old \<and>
             isfile (out_fs (main_fix U False fs)) (resolve_fix U fs old)))"
proof -
  have 1: "\<not> str_contains html (ascii ''dppUrls'') \<longrightarrow> find_dpp_urls_block U html = None"
    using search_block_contains [of U 0 html]
    by (cases "find_dpp_urls_block U html") (auto simp: find_dpp_urls_block_def)
  have 2: "find_dpp_urls_block U html = None \<longrightarrow>
        out_status (main_fix U False fs) = Finished \<and>
        WarnNoBlock \<in> set (out_log (main_fix U False fs)) \<and>
        BackupCreated \<notin> set (out_log (main_fix U False fs)) \<and>
        DashboardUpdated \<notin> set (out_log (main_fix U False fs)) \<and>
        map_of (out_fs (main_fix U False fs)) DASHBOARD_FILE = map_of fs DASHBOARD_FILE \<and>
        (\<forall>old \<in> set (html_files U fs).
           old \<noteq> DASHBOARD_FILE \<and> resolve_fix U fs old \<noteq> old \<longrightarrow>
             Renaming old (resolve_fix U fs old) \<in> set (out_log (main_fix U False fs)) \<and>
             \<not> path_exists (out_fs (main_fix U False fs)) old \<and>
             isfile (out_fs (main_fix U False fs)) (resolve_fix U fs old))"
    using missing_block_run [OF U d r] by blast
  from 1 2 show ?thesis
    by (rule conjI)
qed

theorem missing_block_is_recoverable_witness:
  "ucd_sound ascii_ucd \<and> DASHBOARD_FILE \<in> set (html_files ascii_ucd scenario_b) \<and>
   read_text scenario_b DASHBOARD_FILE = Inr (ascii ''<html></html>'') \<and>
   \<not> str_contains (ascii ''<html></html>'') (ascii ''dppUrls'') \<and>
   find_dpp_urls_block ascii_ucd (ascii ''<html></html>'') = None \<and>
   out_status (main_fix ascii_ucd False scenario_b) = Finished \<and>
   WarnNoBlock \<in> set (out_log (main_fix ascii_ucd False scenario_b)) \<and>
   BackupCreated \<notin> set (out_log (main_fix ascii_ucd False scenario_b)) \<and>
   map_of (out_fs (main_fix ascii_ucd False scenario_b)) DASHBOARD_FILE =
     map_of scenario_b DASHBOARD_FILE"
proof -
  have n: "\<not> str_contains (ascii ''<html></html>'') (ascii ''dppUrls'')"
    by (simp add: startswith_def ascii_def)
  from missing_block_is_recoverable [OF ucd_sound_ascii_ucd dashboard_in_scenario_b
      read_dashboard_scenario_b] n
    ucd_sound_ascii_ucd dashboard_in_scenario_b read_dashboard_scenario_b
  show ?thesis
    by blast
qed

lemma splitext_append: "splitext p = (b, e) \<Longrightarrow> b @ e = p"
  by (auto simp: splitext_def Let_def split: if_splits)

lemma free_candidate_slash:
  "47 \<in> set base \<union> set ext \<Longrightarrow> 47 \<in> set (free_candidate fs base ext i)"
proof -
  assume a: "47 \<in> set base \<union> set ext"
  obtain j where "free_candidate fs base ext i = candidate base j ext"
    using free_candidate_is by blast
  with a show ?thesis
    by (auto simp: candidate_def)
qed

lemma join_old_dir_slash: "47 \<in> set (join_old_dir c)"
proof (cases "take 1 c = [47]")
  case True
  then have "c = 47 # drop 1 c"
    by (cases c) auto
  then have "47 \<in> set c"
    by (metis list.set_intros(1))
  with True show ?thesis
    by (simp add: join_old_dir_def)
next
  case False
  then show ?thesis
    by (simp add: join_old_dir_def)
qed

lemma quarantine_dst_slash: "47 \<in> set (quarantine_dst fs c)"
proof -
  obtain b e where s: "splitext (join_old_dir c) = (b, e)"
    by (cases "splitext (join_old_dir c)")
  from splitext_append [OF s] join_old_dir_slash [of c] have "47 \<in> set b \<union> set e"
    by (metis set_append)
  then have "47 \<in> set (free_candidate fs b e 2)"
    by (rule free_candidate_slash)
  with s join_old_dir_slash [of c] show ?thesis
    by (simp add: quarantine_dst_def)
qed

lemma map_of_rekey:
  assumes p: "47 \<notin> set p" and n: "47 \<in> set new"
  shows "map_of (map (\<lambda>(k, n). (rekey old new k, n)) fs) p = (if p = old then None else map_of fs p)"
proof -
  have ns: "\<not> startswith p (old @ [47])"
  proof
    assume "startswith p (old @ [47])"
    then have "take (length (old @ [47])) p = old @ [47]"
      by (simp add: startswith_def)
    then have "47 \<in> set (take (length (old @ [47])) p)"
      by simp
    with p show False
      by (auto dest: in_set_takeD)
  qed
  have moved: "\<And>k. k = old \<or> startswith k (old @ [47]) \<Longrightarrow> rekey old new k \<noteq> p"
    using p n by (auto simp: rekey_def)
  show ?thesis
  proof (induction fs)
    case Nil
    show ?case by simp
  next
    case (Cons e fs)
    obtain k v where e: "e = (k, v)" by (cases e)
    show ?case
    proof (cases "k = old \<or> startswith k (old @ [47])")
      case True
      from moved [OF True] have r: "rekey old new k \<noteq> p" .
      from True ns have "k = p \<longrightarrow> p = old"
        by auto
      with r Cons.IH show ?thesis
        by (auto simp: e)
    next
      case False
      then have "rekey old new k = k"
        by (simp add: rekey_def)
      with False Cons.IH show ?thesis
        by (auto simp: e)
    qed
  qed
qed

lemma os_rename_dirs:
  assumes r: "os_rename fs old new = Inr fs'" and n: "47 \<in> set new" and p: "47 \<notin> set p"
    and d: "isdir fs' p"
  shows "isdir fs p"
proof (cases "map_of fs old")
  case None
  with r show ?thesis by (simp add: os_rename_def)
next
  case (Some node)
  show ?thesis
  proof (cases node)
    case (File c)
    with r Some have "fs' = fs_put (fs_remove fs old) new (File c)"
      by (simp add: os_rename_def split: if_splits)
    with d p n show ?thesis
      by (auto simp: isdir_def map_of_renamed split: if_splits)
  next
    case Dir
    with r Some have "fs' = map (\<lambda>(k, n). (rekey old new k, n)) fs"
      by (simp add: os_rename_def split: if_splits)
    with d map_of_rekey [OF p n, of old fs] show ?thesis
      by (auto simp: isdir_def split: if_splits)
  qed
qed

lemma shutil_move_dirs:
  assumes r: "shutil_move fs c dst = Inr fs'" and n: "47 \<in> set dst" and p: "47 \<notin> set p"
    and d: "isdir fs' p"
  shows "isdir fs p"
proof (cases "isdir fs dst")
  case True
  with r have "os_rename fs c (dst @ 47 # basename c) = Inr fs'"
    by (simp add: shutil_move_def split: if_splits)
  moreover have "47 \<in> set (dst @ 47 # basename c)"
    by simp
  ultimately show ?thesis
    using p d by (rule os_rename_dirs)
next
  case False
  with r have "os_rename fs c dst = Inr fs'"
    by (simp add: shutil_move_def)
  then show ?thesis
    using n p d by (rule os_rename_dirs)
qed

lemma quarantine_loop_dirs:
  assumes p: "47 \<notin> set p"
  shows "isdir (out_fs (quarantine_loop fs log cs)) p \<Longrightarrow> isdir fs p"
proof (induction cs arbitrary: fs log)
  case Nil
  then show ?case by simp
next
  case (Cons c cs)
  show ?case
  proof (cases "shutil_move fs c (quarantine_dst fs c)")
    case (Inl err)
    with Cons.prems show ?thesis by simp
  next
    case (Inr fs')
    with Cons.prems have "isdir (out_fs (quarantine_loop fs'
        (log @ [Moving c (quarantine_dst fs c)]) cs)) p"
      by simp
    then have "isdir fs' p"
      by (rule Cons.IH)
    with Inr quarantine_dst_slash p show ?thesis
      by (rule shutil_move_dirs)
  qed
qed

lemma quarantine_dirs:
  assumes p: "47 \<notin> set p" and f: "isfile fs p"
  shows "\<not> isdir (out_fs (quarantine fs log cs)) p"
proof
  assume d: "isdir (out_fs (quarantine fs log cs)) p"
  from f have nd: "\<not> isdir fs p"
    by (auto simp: isfile_def isdir_def split: option.splits node.splits)
  show False
  proof (cases "makedirs fs OLD_DIR")
    case (Inl err)
    with d nd show ?thesis
      by (simp add: quarantine_def)
  next
    case (Inr fs1)
    with d have "isdir (out_fs (quarantine_loop fs1 log cs)) p"
      by (simp add: quarantine_def)
    with p have "isdir fs1 p"
      by (rule quarantine_loop_dirs)
    with Inr f nd show ?thesis
      by (auto simp: makedirs_def isdir_def isfile_def map_of_fs_put
          split: option.splits node.splits if_splits)
  qed
qed

lemma plan_cleanup_keys_after_quarantine:
  "\<forall>k \<in> fst ` set (plan_cleanup U (filter (\<lambda>f. f \<noteq> DASHBOARD_FILE) (html_files U fs))).
     \<not> isdir fs k \<and> \<not> isdir (out_fs (quarantine fs log cs)) k"
proof
  fix k
  assume "k \<in> fst ` set (plan_cleanup U (filter (\<lambda>f. f \<noteq> DASHBOARD_FILE) (html_files U fs)))"
  with plan_cleanup_keys [of U fs] have l: "k \<in> set (listdir fs)" and f: "isfile fs k"
    by auto
  from l have "47 \<notin> set k"
    by (simp add: listdir_def)
  from quarantine_dirs [OF this f] f
  show "\<not> isdir fs k \<and> \<not> isdir (out_fs (quarantine fs log cs)) k"
    by (auto simp: isfile_def isdir_def split: option.splits node.splits)
qed

text \<open>
  C10. The keys of the plan, in fix_dpp_filenames.py and in dpp_cleanup.py, are entries of
  the working directory that are regular files, end in \<^verbatim>\<open>.html\<close> or \<^verbatim>\<open>.htm\<close> whatever the
  case, and are not the dashboard. The rename loop leaves every other existing path as it
  is: in fix_dpp_filenames.py from the directory the plan was made in; in dpp_cleanup.py
  from that directory too (no conflict), and from the directory as the quarantine step
  leaves it.
\<close>

theorem only_html_files_are_renamed:
  "fst ` set (plan_fix U fs (filter (\<lambda>f. f \<noteq> DASHBOARD_FILE) (html_files U fs)))
     \<subseteq> {f \<in> set (listdir fs). isfile fs f \<and> is_html U f \<and> f \<noteq> DASHBOARD_FILE} \<and>
   fst ` set (plan_cleanup U (filter (\<lambda>f. f \<noteq> DASHBOARD_FILE) (html_files U fs)))
     \<subseteq> {f \<in> set (listdir fs). isfile fs f \<and> is_html U f \<and> f \<noteq> DASHBOARD_FILE} \<and>
   (\<forall>q log.
      path_exists fs q \<and>
      q \<notin> fst ` set (plan_fix U fs (filter (\<lambda>f. f \<noteq> DASHBOARD_FILE) (html_files U fs))) \<longrightarrow>
      map_of (out_fs (rename_loop_fix fs log
        (plan_fix U fs (filter (\<lambda>f. f \<noteq> DASHBOARD_FILE) (html_files U fs))))) q = map_of fs q) \<and>
   (\<forall>q log.
      path_exists fs q \<and>
      q \<notin> fst ` set (plan_cleanup U (filter (\<lambda>f. f \<noteq> DASHBOARD_FILE) (html_files U fs))) \<longrightarrow>
      map_of (out_fs (rename_loop_cleanup fs log
        (plan_cleanup U (filter (\<lambda>f. f \<noteq> DASHBOARD_FILE) (html_files U fs))))) q = map_of fs q) \<and>
   (\<forall>q log log' cs.
      path_exists (out_fs (quarantine fs log' cs)) q \<and>
      q \<notin> fst ` set (plan_cleanup U (filter (\<lambda>f. f \<noteq> DASHBOARD_FILE) (html_files U fs))) \<longrightarrow>
      map_of (out_fs (rename_loop_cleanup (out_fs (quarantine fs log' cs)) log
        (plan_cleanup U (filter (\<lambda>f. f \<noteq> DASHBOARD_FILE) (html_files U fs))))) q
        = map_of (out_fs (quarantine fs log' cs)) q)"
proof (intro conjI allI impI)
  let ?plan = "plan_fix U fs (filter (\<lambda>f. f \<noteq> DASHBOARD_FILE) (html_files U fs))"
  let ?planc = "plan_cleanup U (filter (\<lambda>f. f \<noteq> DASHBOARD_FILE) (html_files U fs))"
  show "fst ` set ?plan
     \<subseteq> {f \<in> set (listdir fs). isfile fs f \<and> is_html U f \<and> f \<noteq> DASHBOARD_FILE}"
    by (rule plan_fix_keys)
  show "fst ` set ?planc
     \<subseteq> {f \<in> set (listdir fs). isfile fs f \<and> is_html U f \<and> f \<noteq> DASHBOARD_FILE}"
    by (rule plan_cleanup_keys)
  {
    fix q log
    assume a: "path_exists fs q \<and> q \<notin> fst ` set ?plan"
    have k: "\<forall>k \<in> fst ` set ?plan. \<not> isdir fs k"
      using plan_fix_keys [of U fs] by (auto simp: isfile_def isdir_def split: option.splits node.splits)
    have "q \<notin> snd ` set ?plan"
    proof
      assume "q \<in> snd ` set ?plan"
      then obtain k where p: "(k, q) \<in> set ?plan"
        by auto
      from plan_fix_entries [OF p] have "q = resolve_fix U fs k" "q \<noteq> k"
        by auto
      then have "\<not> path_exists fs q"
        using resolve_fix_free [of U fs k] by simp
      with a show False by simp
    qed
    with k a show "map_of (out_fs (rename_loop_fix fs log ?plan)) q = map_of fs q"
      by (simp add: rename_loop_fix_frame)
  }
  {
    fix q log
    assume a: "path_exists fs q \<and> q \<notin> fst ` set ?planc"
    have "\<forall>k \<in> fst ` set ?planc. \<not> isdir fs k"
      using plan_cleanup_keys_after_quarantine [of U fs] by blast
    with a show "map_of (out_fs (rename_loop_cleanup fs log ?planc)) q = map_of fs q"
      by (simp add: rename_loop_cleanup_frame)
  }
  {
    fix q log log' cs
    assume a: "path_exists (out_fs (quarantine fs log' cs)) q \<and> q \<notin> fst ` set ?planc"
    have "\<forall>k \<in> fst ` set ?planc. \<not> isdir (out_fs (quarantine fs log' cs)) k"
      using plan_cleanup_keys_after_quarantine [of U fs log' cs] by blast
    with a show "map_of (out_fs (rename_loop_cleanup (out_fs (quarantine fs log' cs)) log ?planc)) q
        = map_of (out_fs (quarantine fs log' cs)) q"
      by (simp add: rename_loop_cleanup_frame)
  }
qed

theorem only_html_files_are_renamed_witness:
  "path_exists scenario_b DASHBOARD_FILE \<and>
   map_of (out_fs (rename_loop_fix scenario_b []
     (plan_fix ascii_ucd scenario_b
        (filter (\<lambda>f. f \<noteq> DASHBOARD_FILE) (html_files ascii_ucd scenario_b)))))
     DASHBOARD_FILE = map_of scenario_b DASHBOARD_FILE \<and>
   map_of (out_fs (rename_loop_cleanup scenario_b []
     (plan_cleanup ascii_ucd
        (filter (\<lambda>f. f \<noteq> DASHBOARD_FILE) (html_files ascii_ucd scenario_b)))))
     DASHBOARD_FILE = map_of scenario_b DASHBOARD_FILE"
proof -
  note t = only_html_files_are_renamed [of ascii_ucd scenario_b]
  have e: "path_exists scenario_b DASHBOARD_FILE"
    by (simp add: path_exists_def scenario_b_def)
  have k1: "DASHBOARD_FILE \<notin> fst ` set (plan_fix ascii_ucd scenario_b
      (filter (\<lambda>f. f \<noteq> DASHBOARD_FILE) (html_files ascii_ucd scenario_b)))"
    unfolding targets_scenario_b plan_fix_scenario_b
    by (simp add: DASHBOARD_FILE_def ascii_eq_iff)
  have k2: "DASHBOARD_FILE \<notin> fst ` set (plan_cleanup ascii_ucd
      (filter (\<lambda>f. f \<noteq> DASHBOARD_FILE) (html_files ascii_ucd scenario_b)))"
    unfolding targets_scenario_b plan_cleanup_scenario_b
    by (simp add: DASHBOARD_FILE_def ascii_eq_iff)
  from t e k1 have "map_of (out_fs (rename_loop_fix scenario_b []
     (plan_fix ascii_ucd scenario_b
        (filter (\<lambda>f. f \<noteq> DASHBOARD_FILE) (html_files ascii_ucd scenario_b)))))
     DASHBOARD_FILE = map_of scenario_b DASHBOARD_FILE"
    by blast
  moreover from t e k2 have "map_of (out_fs (rename_loop_cleanup scenario_b []
     (plan_cleanup ascii_ucd
        (filter (\<lambda>f. f \<noteq> DASHBOARD_FILE) (html_files ascii_ucd scenario_b)))))
     DASHBOARD_FILE = map_of scenario_b DASHBOARD_FILE"
    by blast
  ultimately show ?thesis
    using e by blast
qed







section \<open>The backup\<close>

lemma path_exists_map_of: "map_of fs' q = map_of fs q \<Longrightarrow> path_exists fs' q = path_exists fs q"
  by (simp add: path_exists_def)








end
